theory Spec2Isabelle
  imports Main "HOL-Library.Word" "HOL-Library.Log_Nat"
begin

section \<open>JavaScript strings\<close>

text \<open>
  A JavaScript string is a sequence of UTF-16 code units, and \<^verbatim>\<open>.length\<close> counts
  code units.  A string is therefore a list of 16-bit words.  The literals that occur in
  the source are ASCII; \<open>js\<close> turns an ASCII literal into its code units.
\<close>

type_synonym cu = "16 word"
type_synonym jsstring = "cu list"

definition js :: "string \<Rightarrow> jsstring" where
  "js s = map of_char s"

definition LF :: cu where
  "LF = 0x0A"

text \<open>
  The character classes used by the regular expressions of \<^verbatim>\<open>compressor.ts\<close>, as
  ECMAScript defines them (no \<^verbatim>\<open>i\<close> or \<^verbatim>\<open>u\<close> flag is used):
  the line terminators (after which \<^verbatim>\<open>^\<close> matches and before which \<^verbatim>\<open>$\<close> matches
  under the \<^verbatim>\<open>m\<close> flag), \<^verbatim>\<open>\s\<close> (white space and line terminators, which is also what
  \<^verbatim>\<open>trim\<close> removes), \<^verbatim>\<open>\w\<close>, \<^verbatim>\<open>[A-Za-z]\<close> and \<^verbatim>\<open>[{}:;,=()[\]<>]\<close>.
\<close>

definition isLineTerminator :: "cu \<Rightarrow> bool" where
  "isLineTerminator c \<longleftrightarrow> c = 0x0A \<or> c = 0x0D \<or> c = 0x2028 \<or> c = 0x2029"

definition isSpace :: "cu \<Rightarrow> bool" where
  "isSpace c \<longleftrightarrow>
     c = 0x09 \<or> c = 0x0B \<or> c = 0x0C \<or> c = 0x20 \<or> c = 0xA0 \<or> c = 0xFEFF \<or>
     c = 0x1680 \<or> (0x2000 \<le> c \<and> c \<le> 0x200A) \<or> c = 0x202F \<or> c = 0x205F \<or>
     c = 0x3000 \<or> isLineTerminator c"

definition isAlpha :: "cu \<Rightarrow> bool" where
  "isAlpha c \<longleftrightarrow> (0x41 \<le> c \<and> c \<le> 0x5A) \<or> (0x61 \<le> c \<and> c \<le> 0x7A)"

definition isWord :: "cu \<Rightarrow> bool" where
  "isWord c \<longleftrightarrow> isAlpha c \<or> (0x30 \<le> c \<and> c \<le> 0x39) \<or> c = 0x5F"

definition isPunct :: "cu \<Rightarrow> bool" where
  "isPunct c \<longleftrightarrow> c \<in> set (js ''{}:;,=()[]<>'')"

section \<open>Regular expressions and global replace\<close>

text \<open>
  The thirteen patterns are built from literal characters, one-character classes, greedy
  stars of one-character classes, one capture group, and the assertions \<^verbatim>\<open>^\<close> and
  \<^verbatim>\<open>$\<close>.  A pattern is the list of its items; \<^verbatim>\<open>x+\<close> is \<^verbatim>\<open>xx*\<close>.
\<close>

datatype rx =
    Lit cu
  | Cls "cu \<Rightarrow> bool"
  | Star "cu \<Rightarrow> bool"
  | GOpen
  | GClose
  | Bol
  | Eol

definition lits :: "string \<Rightarrow> rx list" where
  "lits s = map Lit (js s)"

definition plus :: "(cu \<Rightarrow> bool) \<Rightarrow> rx list" where
  "plus P = [Cls P, Star P]"

text \<open>
  The backtracking matcher of ECMAScript.  \<open>matchAt pat prev s grp cap n\<close> matches
  \<open>pat\<close> against the input that starts with \<open>s\<close>; \<open>prev\<close> is the code unit before
  the current position (\<open>None\<close> at the start of the input), \<open>grp\<close> says whether the
  capture group is open, \<open>cap\<close> is what group 1 has captured and \<open>n\<close> counts the
  code units consumed.  The result is the capture and the length of the match.  A greedy
  star first tries to take one more code unit and falls back to the rest of the pattern.
\<close>

fun matchAt :: "rx list \<Rightarrow> cu option \<Rightarrow> jsstring \<Rightarrow> bool \<Rightarrow> jsstring \<Rightarrow> nat
    \<Rightarrow> (jsstring \<times> nat) option" where
  "matchAt [] prev s grp cap n = Some (cap, n)"
| "matchAt (Lit c # pat) prev [] grp cap n = None"
| "matchAt (Lit c # pat) prev (x # xs) grp cap n =
     (if x = c then matchAt pat (Some x) xs grp (if grp then cap @ [x] else cap) (Suc n)
      else None)"
| "matchAt (Cls P # pat) prev [] grp cap n = None"
| "matchAt (Cls P # pat) prev (x # xs) grp cap n =
     (if P x then matchAt pat (Some x) xs grp (if grp then cap @ [x] else cap) (Suc n)
      else None)"
| "matchAt (Star P # pat) prev [] grp cap n = matchAt pat prev [] grp cap n"
| "matchAt (Star P # pat) prev (x # xs) grp cap n =
     (if P x then
        (case matchAt (Star P # pat) (Some x) xs grp (if grp then cap @ [x] else cap) (Suc n) of
           Some r \<Rightarrow> Some r
         | None \<Rightarrow> matchAt pat prev (x # xs) grp cap n)
      else matchAt pat prev (x # xs) grp cap n)"
| "matchAt (GOpen # pat) prev s grp cap n = matchAt pat prev s True [] n"
| "matchAt (GClose # pat) prev s grp cap n = matchAt pat prev s False cap n"
| "matchAt (Bol # pat) prev s grp cap n =
     (case prev of
        None \<Rightarrow> matchAt pat prev s grp cap n
      | Some c \<Rightarrow> if isLineTerminator c then matchAt pat prev s grp cap n else None)"
| "matchAt (Eol # pat) prev s grp cap n =
     (case s of
        [] \<Rightarrow> matchAt pat prev s grp cap n
      | x # xs \<Rightarrow> if isLineTerminator x then matchAt pat prev s grp cap n else None)"

text \<open>
  A replacement template is a list of literal pieces and references \<^verbatim>\<open>$1\<close> to the
  capture group.
\<close>

datatype piece = Txt jsstring | Group1

fun expand :: "piece list \<Rightarrow> jsstring \<Rightarrow> jsstring" where
  "expand [] cap = []"
| "expand (Txt t # ps) cap = t @ expand ps cap"
| "expand (Group1 # ps) cap = cap @ expand ps cap"

text \<open>
  \<^verbatim>\<open>String.prototype.replace\<close> with a global pattern: the input is scanned from
  the left; at each position the pattern is tried; a match is replaced by the expanded
  template and the scan continues behind the match; where nothing matches the code unit
  is copied.  After an empty match the scan advances by one code unit.  In
  \<open>replaceFrom pat tmpl k prev s\<close> the number \<open>k\<close> counts the code units of the last
  match that are still to be skipped.
\<close>

fun replaceFrom :: "rx list \<Rightarrow> piece list \<Rightarrow> nat \<Rightarrow> cu option \<Rightarrow> jsstring \<Rightarrow> jsstring" where
  "replaceFrom pat tmpl (Suc k) prev (x # xs) = replaceFrom pat tmpl k (Some x) xs"
| "replaceFrom pat tmpl (Suc k) prev [] = []"
| "replaceFrom pat tmpl 0 prev [] =
     (case matchAt pat prev [] False [] 0 of
        None \<Rightarrow> []
      | Some (cap, n) \<Rightarrow> expand tmpl cap)"
| "replaceFrom pat tmpl 0 prev (x # xs) =
     (case matchAt pat prev (x # xs) False [] 0 of
        None \<Rightarrow> x # replaceFrom pat tmpl 0 (Some x) xs
      | Some (cap, n) \<Rightarrow>
          expand tmpl cap @
            (case n of
               0 \<Rightarrow> x # replaceFrom pat tmpl 0 (Some x) xs
             | Suc k \<Rightarrow> replaceFrom pat tmpl k (Some x) xs))"

definition replace :: "jsstring \<Rightarrow> rx list \<times> piece list \<Rightarrow> jsstring" where
  "replace content rule = replaceFrom (fst rule) (snd rule) 0 None content"

section \<open>The textual normalizer\<close>

definition compressionRules :: "(rx list \<times> piece list) list" where
  "compressionRules =
    [ ([Lit LF, Star isSpace, Lit LF], [Txt [LF]]),
      (Bol # plus isSpace, []),
      (plus isSpace @ [Eol], []),
      ([Star isSpace, GOpen, Cls isPunct, GClose, Star isSpace], [Group1]),
      (lits ''import'' @ [Star isSpace] @ lits ''{'', [Txt (js ''import{'')]),
      (lits ''}'' @ [Star isSpace] @ lits ''from'', [Txt (js ''}from'')]),
      (lits ''export'' @ [Star isSpace] @ lits ''{'', [Txt (js ''export{'')]),
      (lits ''export'' @ plus isSpace @ lits ''type'', [Txt (js ''export type'')]),
      (lits ''export'' @ plus isSpace @ lits ''const'', [Txt (js ''export const'')]),
      (lits ''export'' @ plus isSpace @ lits ''enum'', [Txt (js ''export enum'')]),
      (lits ''export'' @ plus isSpace @ lits ''interface'', [Txt (js ''export interface'')]),
      (lits ''type'' @ plus isSpace @ [GOpen] @ plus isWord @ [GClose, Star isSpace] @ lits ''='',
         [Txt (js ''type ''), Group1, Txt (js ''='')]),
      (lits '':'' @ [Star isSpace, GOpen, Cls isAlpha, GClose], [Txt (js '':''), Group1]) ]"

definition applyRule :: "jsstring \<Rightarrow> rx list \<times> piece list \<Rightarrow> jsstring" where
  "applyRule content rule = replace content rule"

text \<open>\<^verbatim>\<open>split('\n')\<close>: the pieces between the line feeds; the empty string gives one empty piece.\<close>

fun split :: "cu \<Rightarrow> jsstring \<Rightarrow> jsstring list" where
  "split sep [] = [[]]"
| "split sep (x # xs) =
     (if x = sep then [] # split sep xs
      else (case split sep xs of
              [] \<Rightarrow> [[x]]
            | l # ls \<Rightarrow> (x # l) # ls))"

definition trim :: "jsstring \<Rightarrow> jsstring" where
  "trim s = rev (dropWhile isSpace (rev (dropWhile isSpace s)))"

definition processLines :: "jsstring \<Rightarrow> jsstring" where
  "processLines content =
     concat (filter (\<lambda>line. length line > 0) (map trim (split LF content)))"

definition advancedCompress :: "jsstring \<Rightarrow> jsstring" where
  "advancedCompress content =
     (let afterRules = foldl applyRule content compressionRules
      in processLines afterRules)"

section \<open>Numbers\<close>

text \<open>
  A JavaScript number is an IEEE 754 double.  The sizes handled here are lengths of
  strings and sums of such lengths; they are integers far below \<open>2^53\<close>, which doubles
  represent exactly, so sizes are natural numbers.  The ratio is computed with a division,
  a subtraction and a multiplication of doubles, each of which returns the exact result
  rounded to the nearest double (ties to even).  \<open>double\<close> is that rounding on the
  rationals: 53 significant bits, with the exponent range taken as unbounded (no
  quotient of two sizes below \<open>2^53\<close> leaves the normal range).
\<close>

definition pow2 :: "int \<Rightarrow> rat" where
  "pow2 e = (if 0 \<le> e then 2 ^ nat e else 1 / 2 ^ nat (- e))"

definition binade :: "rat \<Rightarrow> int" where
  \<comment> \<open>for \<open>x > 0\<close>: the exponent \<open>e\<close> with \<open>2^e \<le> x < 2^(e+1)\<close>\<close>
  "binade x =
     (let (p, q) = quotient_of x;
          d = bitlen p - bitlen q
      in if pow2 d \<le> x then d else d - 1)"

definition roundTiesToEven :: "rat \<Rightarrow> int" where
  "roundTiesToEven x =
     (let f = \<lfloor>x\<rfloor>; r = x - of_int f
      in if r < 1 / 2 then f else if 1 / 2 < r then f + 1 else if even f then f else f + 1)"

definition double :: "rat \<Rightarrow> rat" where
  "double x =
     (if x = 0 then 0
      else let u = pow2 (binade \<bar>x\<bar> - 52) in of_int (roundTiesToEven (x / u)) * u)"

definition num_div :: "rat \<Rightarrow> rat \<Rightarrow> rat" where
  "num_div a b = double (a / b)"

definition num_sub :: "rat \<Rightarrow> rat \<Rightarrow> rat" where
  "num_sub a b = double (a - b)"

definition num_mul :: "rat \<Rightarrow> rat \<Rightarrow> rat" where
  "num_mul a b = double (a * b)"

text \<open>\<^verbatim>\<open>Math.round\<close>: the nearest integer, a tie going towards \<open>+\<infinity>\<close>.\<close>

definition Math_round :: "rat \<Rightarrow> int" where
  "Math_round x = \<lfloor>x + 1 / 2\<rfloor>"

section \<open>Data model\<close>

text \<open>
  The type declarations of \<^verbatim>\<open>types.ts\<close>: \<^verbatim>\<open>FileStats\<close>, \<^verbatim>\<open>ProcessedFile\<close>,
  \<^verbatim>\<open>CompressResult\<close> and, further down, \<^verbatim>\<open>CompressOptions\<close> with the fields that
  \<^verbatim>\<open>compressor.ts\<close> reads (\<^verbatim>\<open>outputFile\<close> and \<^verbatim>\<open>interactive\<close> are read by the
  command line only).  An optional field is an option.
\<close>

record FileStats =
  originalSize :: nat
  compressedSize :: nat
  ratio :: int

record ProcessedFile =
  path :: jsstring
  originalContent :: jsstring
  compressedContent :: jsstring
  stats :: FileStats

record CompressResult =
  files :: "ProcessedFile list"
  totalStats :: FileStats
  "output" :: jsstring

text \<open>
  What the code throws: \<open>Error msg\<close> is \<^verbatim>\<open>new Error(msg)\<close> thrown by the repository's
  own code, \<open>TypeError\<close> is thrown by \<^verbatim>\<open>reduce\<close> on an empty array without initial
  value, \<open>Thrown msg\<close> is an exception of the environment (file system, \<^verbatim>\<open>RegExp\<close>).
\<close>

datatype error = Error jsstring | TypeError | Thrown jsstring

text \<open>
  The environment of a run: the TypeScript compiler (parse, then print without comments),
  the file system, \<^verbatim>\<open>path.relative\<close> and the \<^verbatim>\<open>RegExp\<close> engine applied to patterns
  supplied by the user.  \<open>fs_walk dir filter\<close> is the outcome of the recursive directory
  listing \<^verbatim>\<open>getFilesRecursiveIO(dir, filter)()\<close>.
\<close>

record 'r world =
  ts_printWithoutComments :: "jsstring \<Rightarrow> jsstring"
  fs_readFile :: "jsstring \<Rightarrow> error + jsstring"
  fs_walk :: "jsstring \<Rightarrow> (jsstring \<Rightarrow> bool) \<Rightarrow> error + jsstring list"
  path_relative :: "jsstring \<Rightarrow> jsstring \<Rightarrow> jsstring"
  new_RegExp :: "jsstring \<Rightarrow> error + 'r"
  regexp_test :: "'r \<Rightarrow> jsstring \<Rightarrow> bool"

text \<open>
  Running a list of effects that may throw, as \<^verbatim>\<open>map\<close> over a throwing function and
  \<^verbatim>\<open>Promise.all\<close> do: the results in the order of the inputs, or an error and no result.
\<close>

fun collect :: "('a \<Rightarrow> error + 'b) \<Rightarrow> 'a list \<Rightarrow> error + 'b list" where
  "collect f [] = Inr []"
| "collect f (x # xs) =
     (case f x of
        Inl e \<Rightarrow> Inl e
      | Inr y \<Rightarrow> (case collect f xs of Inl e \<Rightarrow> Inl e | Inr ys \<Rightarrow> Inr (y # ys)))"

section \<open>utils.ts\<close>

definition endsWith :: "jsstring \<Rightarrow> jsstring \<Rightarrow> bool" where
  "endsWith s t \<longleftrightarrow> length t \<le> length s \<and> drop (length s - length t) s = t"

definition patternSource :: "jsstring \<Rightarrow> jsstring" where
  \<comment> \<open>\<^verbatim>\<open>pattern.replace(/\*/g, '.*')\<close>\<close>
  "patternSource pattern = concat (map (\<lambda>c. if c = 0x2A then js ''.*'' else [c]) pattern)"

definition patternToRegex :: "'r world \<Rightarrow> jsstring \<Rightarrow> error + 'r" where
  "patternToRegex w pattern = new_RegExp w (patternSource pattern)"

definition createFileFilter ::
  "'r world \<Rightarrow> jsstring list \<Rightarrow> jsstring list \<Rightarrow> error + (jsstring \<Rightarrow> bool)" where
  "createFileFilter w includePatterns excludePatterns =
     (case collect (patternToRegex w) includePatterns of
        Inl e \<Rightarrow> Inl e
      | Inr includeRegexes \<Rightarrow>
          (case collect (patternToRegex w) excludePatterns of
             Inl e \<Rightarrow> Inl e
           | Inr excludeRegexes \<Rightarrow>
               Inr (\<lambda>fileName.
                 if \<not> endsWith fileName (js ''.ts'') then False
                 else if list_ex (\<lambda>regex. regexp_test w regex fileName) excludeRegexes then False
                 else list_ex (\<lambda>regex. regexp_test w regex fileName) includeRegexes)))"

definition getTypeScriptFiles ::
  "'r world \<Rightarrow> jsstring \<Rightarrow> jsstring list option \<Rightarrow> jsstring list option
     \<Rightarrow> error + jsstring list" where
  "getTypeScriptFiles w dir includePatterns excludePatterns =
     (case createFileFilter w
             (case includePatterns of None \<Rightarrow> [js ''*.ts''] | Some ps \<Rightarrow> ps)
             (case excludePatterns of
                None \<Rightarrow> [js ''*.d.ts'', js ''*.test.ts'', js ''*.spec.ts'']
              | Some ps \<Rightarrow> ps) of
        Inl e \<Rightarrow> Inl e
      | Inr fileFilter \<Rightarrow> fs_walk w dir fileFilter)"

definition calculateStats :: "nat \<Rightarrow> nat \<Rightarrow> FileStats" where
  "calculateStats originalSize' compressedSize' =
     \<lparr> originalSize = originalSize',
       compressedSize = compressedSize',
       ratio =
         (if originalSize' > 0
          then Math_round
                 (num_mul (num_sub 1 (num_div (of_nat compressedSize') (of_nat originalSize'))) 100)
          else 0) \<rparr>"

definition getRelativePath :: "'r world \<Rightarrow> jsstring \<Rightarrow> jsstring \<Rightarrow> jsstring" where
  \<comment> \<open>\<^verbatim>\<open>relative(baseDir, filePath).replace(/\\/g, '/')\<close>\<close>
  "getRelativePath w filePath baseDir =
     map (\<lambda>c. if c = 0x5C then 0x2F else c) (path_relative w baseDir filePath)"

definition pipe :: "('a \<Rightarrow> 'b) \<Rightarrow> ('b \<Rightarrow> 'c) \<Rightarrow> 'a \<Rightarrow> 'c" where
  "pipe f g = (\<lambda>a. g (f a))"

section \<open>compressor.ts\<close>

record CompressOptions =
  targetDir :: jsstring
  includePatterns :: "jsstring list option"
  excludePatterns :: "jsstring list option"
  preserveStructure :: "bool option"
  verbose :: "bool option"

definition removeCommentsWithAST :: "'r world \<Rightarrow> jsstring \<Rightarrow> jsstring" where
  "removeCommentsWithAST w content = ts_printWithoutComments w content"

text \<open>\<^verbatim>\<open>Array.prototype.reduce\<close> without an initial value throws on the empty array.\<close>

definition reduce :: "('a \<Rightarrow> 'a \<Rightarrow> 'a) \<Rightarrow> 'a list \<Rightarrow> error + 'a" where
  "reduce f xs = (case xs of [] \<Rightarrow> Inl TypeError | x # rest \<Rightarrow> Inr (foldl f x rest))"

definition createCompressionPipeline ::
  "(jsstring \<Rightarrow> jsstring) list \<Rightarrow> error + (jsstring \<Rightarrow> jsstring)" where
  "createCompressionPipeline functions = reduce (\<lambda>acc fn. pipe acc fn) functions"

definition defaultCompressionPipeline :: "'r world \<Rightarrow> error + (jsstring \<Rightarrow> jsstring)" where
  "defaultCompressionPipeline w =
     createCompressionPipeline [removeCommentsWithAST w, advancedCompress]"

definition processFile ::
  "'r world \<Rightarrow> jsstring \<Rightarrow> (jsstring \<Rightarrow> jsstring) \<Rightarrow> error + ProcessedFile" where
  "processFile w filePath compress =
     (case fs_readFile w filePath of
        Inl e \<Rightarrow> Inl e
      | Inr content \<Rightarrow>
          (let compressed = compress content
           in Inr \<lparr> path = filePath,
                    originalContent = content,
                    compressedContent = compressed,
                    stats = calculateStats (length content) (length compressed) \<rparr>))"

definition formatFileOutput :: "'r world \<Rightarrow> ProcessedFile \<Rightarrow> jsstring \<Rightarrow> bool \<Rightarrow> jsstring" where
  "formatFileOutput w file baseDir preserve =
     (let relativePath = getRelativePath w (path file) baseDir
      in if preserve
         then [LF] @ js ''/*=== '' @ relativePath @ js '' ===*/'' @ [LF]
              @ compressedContent file @ [LF]
         else js ''/*'' @ relativePath @ js ''*/'' @ compressedContent file)"

definition aggregateStats :: "ProcessedFile list \<Rightarrow> nat \<times> nat" where
  \<comment> \<open>the pair is \<^verbatim>\<open>{ totalOriginalSize, totalCompressedSize }\<close>\<close>
  "aggregateStats fs =
     foldl (\<lambda>(totalOriginalSize, totalCompressedSize) file.
              (totalOriginalSize + originalSize (stats file),
               totalCompressedSize + compressedSize (stats file)))
           (0, 0) fs"

text \<open>\<^verbatim>\<open>Array.prototype.join\<close>.\<close>

fun join :: "jsstring \<Rightarrow> jsstring list \<Rightarrow> jsstring" where
  "join sep [] = []"
| "join sep [x] = x"
| "join sep (x # y # ys) = x @ sep @ join sep (y # ys)"

definition generateOutput :: "'r world \<Rightarrow> ProcessedFile list \<Rightarrow> jsstring \<Rightarrow> bool \<Rightarrow> jsstring" where
  "generateOutput w fs baseDir preserve =
     join (if preserve then [LF] else [])
          (map (\<lambda>file. formatFileOutput w file baseDir preserve) fs)"

text \<open>
  The batch run.  The message printed under \<^verbatim>\<open>verbose\<close> goes to the console and does
  not reach the result, so it is left out.  When several reads fail, which rejection
  \<^verbatim>\<open>Promise.all\<close> reports depends on timing; the model reports the first in list order.
\<close>

definition compressTypeScriptFiles :: "'r world \<Rightarrow> CompressOptions \<Rightarrow> error + CompressResult" where
  "compressTypeScriptFiles w options =
     (case defaultCompressionPipeline w of
        Inl e \<Rightarrow> Inl e
      | Inr pipeline \<Rightarrow>
     (case getTypeScriptFiles w (targetDir options) (includePatterns options)
             (excludePatterns options) of
        Inl e \<Rightarrow> Inl e
      | Inr fileList \<Rightarrow>
          if length fileList = 0
          then Inl (Error (js ''No TypeScript files found in '' @ targetDir options))
          else
            (case collect (\<lambda>file. processFile w file pipeline) fileList of
               Inl e \<Rightarrow> Inl e
             | Inr processedFiles \<Rightarrow>
                 (let preserve = (case preserveStructure options of None \<Rightarrow> False | Some b \<Rightarrow> b);
                      out = generateOutput w processedFiles (targetDir options) preserve;
                      totalOriginalSize = fst (aggregateStats processedFiles);
                      totalCompressedSize = length out
                  in Inr \<lparr> files = processedFiles,
                           totalStats = calculateStats totalOriginalSize totalCompressedSize,
                           output = out \<rparr>))))"

section \<open>The selection of the interactive menu\<close>

text \<open>
  \<^verbatim>\<open>compressSelectedFiles\<close>.  The selection is a set of numbers; \<open>selectedIndices\<close>
  lists its elements.  They are sorted, looked up in \<open>files\<close> (an index outside the list
  gives \<^verbatim>\<open>undefined\<close>), and \<^verbatim>\<open>filter(Boolean)\<close> drops \<^verbatim>\<open>undefined\<close> and the empty
  string.  The result is the triple \<^verbatim>\<open>{ output, stats, fileCount }\<close>.
\<close>

definition selectedFiles :: "jsstring list \<Rightarrow> int list \<Rightarrow> jsstring list" where
  "selectedFiles fileList selectedIndices =
     filter (\<lambda>f. f \<noteq> [])
       (List.map_filter
          (\<lambda>i. if 0 \<le> i \<and> nat i < length fileList then Some (fileList ! nat i) else None)
          (sort selectedIndices))"

definition compressSelectedFiles ::
  "'r world \<Rightarrow> jsstring list \<Rightarrow> int list \<Rightarrow> jsstring \<Rightarrow> bool
     \<Rightarrow> error + (jsstring \<times> FileStats \<times> nat)" where
  "compressSelectedFiles w fileList selectedIndices baseDir preserve =
     (case defaultCompressionPipeline w of
        Inl e \<Rightarrow> Inl e
      | Inr pipeline \<Rightarrow>
     (let selected = selectedFiles fileList selectedIndices
      in if length selected = 0 then Inl (Error (js ''No files selected''))
         else
           (case collect (\<lambda>file. case fs_readFile w file of
                                    Inl e \<Rightarrow> Inl e
                                  | Inr content \<Rightarrow> Inr (file, content, pipeline content))
                         selected of
              Inl e \<Rightarrow> Inl e
            | Inr results \<Rightarrow>
                (let out = join (if preserve then [LF] else [])
                             (map (\<lambda>(p, original, compressed).
                                     let relativePath = getRelativePath w p baseDir
                                     in if preserve
                                        then [LF] @ js ''/*=== '' @ relativePath @ js '' ===*/''
                                             @ [LF] @ compressed @ [LF]
                                        else js ''/*'' @ relativePath @ js ''*/'' @ compressed)
                                  results);
                     totalOriginal = foldl (\<lambda>sum (p, original, compressed). sum + length original)
                                           0 results
                 in Inr (out, calculateStats totalOriginal (length out), length selected)))))"

section \<open>Reference definitions taken from the specification\<close>

text \<open>
  The specification describes a pipeline built from the stages \<open>f1, \<dots>, fn\<close> as the
  function that applies \<open>f1\<close> first, then \<open>f2\<close>, and so on to \<open>fn\<close>, every stage
  once.  \<open>applyStages\<close> is that description; it is compared with
  \<open>createCompressionPipeline\<close> below.
\<close>

fun applyStages :: "('a \<Rightarrow> 'a) list \<Rightarrow> 'a \<Rightarrow> 'a" where
  "applyStages [] s = s"
| "applyStages (f # fs) s = applyStages fs (f s)"

text \<open>
  The specification gives the ratio as \<open>round((1 - compressedSize / originalSize) \<times> 100)\<close>.
  \<open>exactPercent\<close> is the value under the rounding, as a rational number, \<open>roundHalfUp\<close>
  the nearest integer with a tie going up, and \<open>isTie x\<close> says that \<open>x\<close> lies halfway
  between two integers.
\<close>

definition exactPercent :: "nat \<Rightarrow> nat \<Rightarrow> rat" where
  "exactPercent osz csz = (1 - of_nat csz / of_nat osz) * 100"

definition roundHalfUp :: "rat \<Rightarrow> int" where
  "roundHalfUp x = \<lfloor>x + 1 / 2\<rfloor>"

definition isTie :: "rat \<Rightarrow> bool" where
  "isTie x \<longleftrightarrow> x + 1 / 2 = of_int \<lfloor>x + 1 / 2\<rfloor>"

text \<open>
  \<open>occursIn text part\<close>: \<open>part\<close> is a contiguous piece of \<open>text\<close>; the sense in which a
  text contains a token or a fragment.
\<close>

fun occursIn :: "jsstring \<Rightarrow> jsstring \<Rightarrow> bool" where
  "occursIn [] needle = (needle = [])"
| "occursIn (x # xs) needle = (take (length needle) (x # xs) = needle \<or> occursIn xs needle)"

section \<open>A sample environment\<close>

text \<open>
  Two files under \<^verbatim>\<open>/p\<close>; a printer that returns its input; a pattern engine in which
  every pattern compiles and matches every name.  Used to run the definitions.
\<close>

definition sample_world :: "unit world" where
  "sample_world =
     \<lparr> ts_printWithoutComments = (\<lambda>s. s),
       fs_readFile = (\<lambda>p. if p = js ''/p/a.ts'' then Inr (js ''const x = 1;'')
                           else if p = js ''/p/b.ts'' then Inr (js ''let y = { z : 2 };'')
                           else Inl (Thrown (js ''ENOENT''))),
       fs_walk = (\<lambda>dir filter. if dir = js ''/p'' then Inr [js ''/p/a.ts'', js ''/p/b.ts'']
                                else Inr []),
       path_relative = (\<lambda>from to. drop (Suc (length from)) to),
       new_RegExp = (\<lambda>src. Inr ()),
       regexp_test = (\<lambda>r name. True) \<rparr>"

definition sample_options :: CompressOptions where
  "sample_options =
     \<lparr> targetDir = js ''/p'', includePatterns = None, excludePatterns = None,
       preserveStructure = None, verbose = None \<rparr>"

section \<open>Notions for the analysis of the rule pass\<close>

text \<open>
  The definitions of this section are not part of the program.  They name the parts of
  \<open>compressionRules\<close> and describe the texts that the rules produce; the proofs about
  the rule pass of \<open>advancedCompress\<close> are stated with them.

  \<open>prevAfter p u\<close> is the code unit before the scan position once the scan that started
  behind \<open>p\<close> has read \<open>u\<close>.
\<close>

fun prevAfter :: "cu option \<Rightarrow> jsstring \<Rightarrow> cu option" where
  "prevAfter p [] = p"
| "prevAfter p (x # xs) = prevAfter (Some x) xs"

text \<open>
  \<open>bolp p\<close>: a position behind \<open>p\<close> is the start of a line.  A text has no leading
  white space (\<open>noLead\<close>) when no line starts with white space, no trailing white space
  (\<open>noTrail\<close>) when every white space code unit is followed by a code unit that is not
  a line terminator, and is \<open>tight\<close> when no white space touches one of the punctuation
  marks of the fourth rule.
\<close>

definition bolp :: "cu option \<Rightarrow> bool" where
  "bolp p = (case p of None \<Rightarrow> True | Some c \<Rightarrow> isLineTerminator c)"

fun noLead :: "cu option \<Rightarrow> jsstring \<Rightarrow> bool" where
  "noLead p [] = True"
| "noLead p (x # xs) = (\<not> (bolp p \<and> isSpace x) \<and> noLead (Some x) xs)"

fun noTrail :: "jsstring \<Rightarrow> bool" where
  "noTrail [] = True"
| "noTrail (x # xs) = ((isSpace x \<longrightarrow> xs \<noteq> [] \<and> \<not> isLineTerminator (hd xs)) \<and> noTrail xs)"

fun tight :: "cu option \<Rightarrow> jsstring \<Rightarrow> bool" where
  "tight p [] = True"
| "tight p (x # xs) =
     ((case p of None \<Rightarrow> True
       | Some c \<Rightarrow> \<not> (isSpace c \<and> isPunct x) \<and> \<not> (isPunct c \<and> isSpace x))
      \<and> tight (Some x) xs)"

text \<open>
  The thirteen rules by name.  The three rules that delete the white space between two
  fixed texts are instances of \<open>tightenRule\<close>, the four rules that put one space between
  \<^verbatim>\<open>export\<close> and a keyword are instances of \<open>keywordRule\<close>.
\<close>

definition rule1 :: "rx list \<times> piece list" where
  "rule1 = ([Lit LF, Star isSpace, Lit LF], [Txt [LF]])"

definition rule2 :: "rx list \<times> piece list" where
  "rule2 = (Bol # plus isSpace, [])"

definition rule3 :: "rx list \<times> piece list" where
  "rule3 = (plus isSpace @ [Eol], [])"

definition rule4 :: "rx list \<times> piece list" where
  "rule4 = ([Star isSpace, GOpen, Cls isPunct, GClose, Star isSpace], [Group1])"

definition tightenRule :: "string \<Rightarrow> string \<Rightarrow> rx list \<times> piece list" where
  "tightenRule a b = (lits a @ [Star isSpace] @ lits b, [Txt (js (a @ b))])"

definition keywordRule :: "string \<Rightarrow> string \<Rightarrow> rx list \<times> piece list" where
  "keywordRule a b = (lits a @ plus isSpace @ lits b, [Txt (js (a @ '' '' @ b))])"

definition rule12 :: "rx list \<times> piece list" where
  "rule12 = (lits ''type'' @ plus isSpace @ [GOpen] @ plus isWord @ [GClose, Star isSpace] @ lits ''='',
         [Txt (js ''type ''), Group1, Txt (js ''='')])"

definition rule13 :: "rx list \<times> piece list" where
  "rule13 = (lits '':'' @ [Star isSpace, GOpen, Cls isAlpha, GClose], [Txt (js '':''), Group1])"

text \<open>
  \<open>eolCut s\<close> is the length of the longest prefix of \<open>s\<close> that is white space and ends
  at the end of a line, when \<open>s\<close> starts with white space; this is what the third rule
  deletes at a white space code unit.  \<open>punctAhead s\<close>: the first code unit of \<open>s\<close> behind
  its leading white space is a punctuation mark of the fourth rule.
\<close>

fun eolCut :: "jsstring \<Rightarrow> nat option" where
  "eolCut [] = Some 0"
| "eolCut (x # xs) =
     (if isSpace x
      then (case eolCut xs of
              Some k \<Rightarrow> Some (Suc k)
            | None \<Rightarrow> if isLineTerminator x then Some 0 else None)
      else None)"

definition punctAhead :: "jsstring \<Rightarrow> bool" where
  "punctAhead s = (case dropWhile isSpace s of [] \<Rightarrow> False | y # ys \<Rightarrow> isPunct y)"

text \<open>
  The rules behind the fourth only shorten runs of white space to one space.
  \<open>nrm u v\<close>: \<open>v\<close> is \<open>u\<close> with some of its maximal runs of white space replaced by one
  space.  \<open>canon\<close> replaces all of them.
\<close>

definition SP :: cu where "SP = 0x20"

inductive nrm :: "jsstring \<Rightarrow> jsstring \<Rightarrow> bool" where
  nrm_Nil: "nrm [] []"
| nrm_char: "\<not> isSpace c \<Longrightarrow> nrm u v \<Longrightarrow> nrm (c # u) (c # v)"
| nrm_run: "w \<noteq> [] \<Longrightarrow> \<forall>c \<in> set w. isSpace c \<Longrightarrow> u = [] \<or> \<not> isSpace (hd u)
             \<Longrightarrow> nrm u v \<Longrightarrow> w' = w \<or> w' = [SP] \<Longrightarrow> nrm (w @ u) (w' @ v)"

function canon :: "jsstring \<Rightarrow> jsstring" where
  "canon [] = []"
| "canon (x # xs) = (if isSpace x then SP # canon (dropWhile isSpace xs) else x # canon xs)"
  by pat_completeness auto

termination
  by (relation "measure length") (auto simp: length_dropWhile_le le_imp_less_Suc)

text \<open>
  A rule that puts one space between two texts is described by a function \<open>D\<close> that
  recognises, at the start of a text, a first part \<open>a\<close>, a run of white space \<open>w\<close>, a second
  part \<open>b\<close> and the rest \<open>u\<close>.  \<open>segn D s v\<close>: \<open>v\<close> is \<open>s\<close> with the run of every
  occurrence found from the left replaced by one space, and some other runs as well.
  \<open>ruleSeg Inv pat tmpl D\<close>: on the texts with \<open>Inv\<close>, the pattern \<open>pat\<close> matches exactly
  where \<open>D\<close> recognises an occurrence, and \<open>tmpl\<close> then gives \<open>a\<close>, one space and \<open>b\<close>.
\<close>

type_synonym seg = "jsstring \<Rightarrow> (jsstring \<times> jsstring \<times> jsstring \<times> jsstring) option"

inductive segn :: "seg \<Rightarrow> jsstring \<Rightarrow> jsstring \<Rightarrow> bool" for D :: seg where
  segn_Nil: "segn D [] []"
| segn_match: "D s = Some (a, w, b, u) \<Longrightarrow> segn D u v \<Longrightarrow> segn D s (a @ SP # b @ v)"
| segn_char: "\<not> isSpace c \<Longrightarrow> D (c # u) = None \<Longrightarrow> segn D u v \<Longrightarrow> segn D (c # u) (c # v)"
| segn_run: "w \<noteq> [] \<Longrightarrow> \<forall>c \<in> set w. isSpace c \<Longrightarrow> u = [] \<or> \<not> isSpace (hd u)
               \<Longrightarrow> segn D u v \<Longrightarrow> w' = w \<or> w' = [SP] \<Longrightarrow> segn D (w @ u) (w' @ v)"

definition segOK :: "seg \<Rightarrow> bool" where
  "segOK D \<longleftrightarrow>
     (\<forall>s a w b u. D s = Some (a, w, b, u) \<longrightarrow>
        s = a @ w @ b @ u \<and> a \<noteq> [] \<and> (\<forall>c \<in> set a. \<not> isSpace c)
        \<and> b \<noteq> [] \<and> (\<forall>c \<in> set b. \<not> isSpace c) \<and> w \<noteq> [] \<and> (\<forall>c \<in> set w. isSpace c))"

definition segInv :: "seg \<Rightarrow> bool" where
  "segInv D \<longleftrightarrow>
     (\<forall>s t a w b u. canon s = canon t \<longrightarrow> D s = Some (a, w, b, u)
        \<longrightarrow> (\<exists>w' u'. D t = Some (a, w', b, u') \<and> canon u = canon u'))"

definition ruleSeg :: "(cu option \<Rightarrow> jsstring \<Rightarrow> bool) \<Rightarrow> rx list \<Rightarrow> piece list \<Rightarrow> seg \<Rightarrow> bool" where
  "ruleSeg Inv pat tmpl D \<longleftrightarrow>
     segOK D \<and> segInv D
     \<and> (\<forall>p x xs. Inv p (x # xs) \<longrightarrow> Inv (Some x) xs)
     \<and> (\<forall>s. s = [] \<or> isSpace (hd s) \<longrightarrow> D s = None)
     \<and> (\<forall>p s. Inv p s \<longrightarrow>
           (case D s of
              None \<Rightarrow> matchAt pat p s False [] 0 = None
            | Some (a, w, b, u) \<Rightarrow>
                (\<exists>c. matchAt pat p s False [] 0 = Some (c, length a + length w + length b)
                     \<and> expand tmpl c = a @ SP # b)))"

text \<open>
  The occurrences for the keyword rules, and for the rule for \<^verbatim>\<open>type\<close> aliases on a tight
  text (where the name is followed by the equals sign at once).
\<close>

definition kwSeg :: "jsstring \<Rightarrow> jsstring \<Rightarrow> seg" where
  "kwSeg A B s =
     (let r = drop (length A) s; w = takeWhile isSpace r; r' = dropWhile isSpace r
      in if take (length A) s = A \<and> w \<noteq> [] \<and> take (length B) r' = B
         then Some (A, w, B, drop (length B) r') else None)"

definition EQ :: cu where "EQ = 0x3D"

definition tySeg :: seg where
  "tySeg s =
     (let r = drop 4 s; w = takeWhile isSpace r; r2 = dropWhile isSpace r;
          name = takeWhile isWord r2; r3 = dropWhile isWord r2
      in if take 4 s = js ''type'' \<and> w \<noteq> [] \<and> name \<noteq> [] \<and> take 1 r3 = [EQ]
         then Some (js ''type'', w, name @ [EQ], drop 1 r3) else None)"

text \<open>
  The value of \<^verbatim>\<open>afterRules\<close> in \<open>advancedCompress\<close>.
\<close>

definition afterRules :: "jsstring \<Rightarrow> jsstring" where
  "afterRules content = foldl applyRule content compressionRules"

text \<open>
  \<open>dropLF s\<close> is \<open>s\<close> without its line feeds.  \<open>wordBreak p s\<close>: somewhere in \<open>s\<close>,
  read behind the code unit \<open>p\<close>, a line feed stands between two word characters.
  \<open>cleanBreaks p s\<close>: every line feed of \<open>s\<close> stands between two code units that are
  neither white space nor punctuation; \<open>joints p s\<close>: and these are not both word
  characters.  \<open>looseAfter k s\<close>: somewhere in \<open>s\<close> the text \<open>k\<close> is followed by a run of
  white space other than one space; \<open>looseKeyword\<close> is this for \<^verbatim>\<open>export\<close> and
  \<^verbatim>\<open>type\<close>.
\<close>

definition dropLF :: "jsstring \<Rightarrow> jsstring" where
  "dropLF s = filter (\<lambda>c. c \<noteq> LF) s"

fun wordBreak :: "cu option \<Rightarrow> jsstring \<Rightarrow> bool" where
  "wordBreak p [] = False"
| "wordBreak p (x # xs) =
     ((x = LF \<and> (case p of None \<Rightarrow> False | Some c \<Rightarrow> isWord c) \<and> xs \<noteq> [] \<and> isWord (hd xs))
      \<or> wordBreak (Some x) xs)"

fun joints :: "cu option \<Rightarrow> jsstring \<Rightarrow> bool" where
  "joints p [] = True"
| "joints p (x # xs) =
     ((x = LF \<longrightarrow>
         (case p of None \<Rightarrow> False
          | Some c \<Rightarrow> \<not> isSpace c \<and> \<not> isPunct c \<and> xs \<noteq> [] \<and> \<not> isSpace (hd xs)
                      \<and> \<not> isPunct (hd xs) \<and> \<not> (isWord c \<and> isWord (hd xs))))
      \<and> joints (Some x) xs)"

fun cleanBreaks :: "cu option \<Rightarrow> jsstring \<Rightarrow> bool" where
  "cleanBreaks p [] = True"
| "cleanBreaks p (x # xs) =
     ((x = LF \<longrightarrow>
         (case p of None \<Rightarrow> False
          | Some c \<Rightarrow> \<not> isSpace c \<and> \<not> isPunct c \<and> xs \<noteq> [] \<and> \<not> isSpace (hd xs)
                      \<and> \<not> isPunct (hd xs)))
      \<and> cleanBreaks (Some x) xs)"

fun looseAfter :: "jsstring \<Rightarrow> jsstring \<Rightarrow> bool" where
  "looseAfter k [] = False"
| "looseAfter k (x # xs) =
     ((take (length k) (x # xs) = k
         \<and> takeWhile isSpace (drop (length k) (x # xs)) \<noteq> []
         \<and> takeWhile isSpace (drop (length k) (x # xs)) \<noteq> [SP])
      \<or> looseAfter k xs)"

definition looseKeyword :: "jsstring \<Rightarrow> bool" where
  "looseKeyword s \<longleftrightarrow> looseAfter (js ''export'') s \<or> looseAfter (js ''type'') s"

text \<open>
  \<open>nonSpace s\<close> is \<open>s\<close> without its white space.  For a pattern with at most one group,
  \<open>bef\<close> and \<open>aft\<close> are the literals outside the group that are not white space, before
  and behind it, and \<open>wsOutside\<close> says that outside the group the pattern reads nothing
  but literals and white space.  \<open>framed\<close> is what a match of such a pattern has read:
  these literals around the capture, and white space.
\<close>

definition nonSpace :: "jsstring \<Rightarrow> jsstring" where
  "nonSpace s = filter (\<lambda>c. \<not> isSpace c) s"

fun bef :: "rx list \<Rightarrow> jsstring" where
  "bef [] = []"
| "bef (Lit c # r) = nonSpace [c] @ bef r"
| "bef (GOpen # r) = []"
| "bef (Cls P # r) = bef r"
| "bef (Star P # r) = bef r"
| "bef (GClose # r) = bef r"
| "bef (Bol # r) = bef r"
| "bef (Eol # r) = bef r"

fun aft :: "rx list \<Rightarrow> jsstring" where
  "aft [] = []"
| "aft (GClose # r) = bef r"
| "aft (Lit c # r) = aft r"
| "aft (Cls P # r) = aft r"
| "aft (Star P # r) = aft r"
| "aft (GOpen # r) = aft r"
| "aft (Bol # r) = aft r"
| "aft (Eol # r) = aft r"

fun wsOutside :: "rx list \<Rightarrow> bool \<Rightarrow> bool" where
  "wsOutside [] g = True"
| "wsOutside (Lit c # r) g = wsOutside r g"
| "wsOutside (Cls P # r) g = ((g \<or> (\<forall>x. P x \<longrightarrow> isSpace x)) \<and> wsOutside r g)"
| "wsOutside (Star P # r) g = ((g \<or> (\<forall>x. P x \<longrightarrow> isSpace x)) \<and> wsOutside r g)"
| "wsOutside (GOpen # r) g = (\<not> g \<and> wsOutside r True)"
| "wsOutside (GClose # r) g = (g \<and> GOpen \<notin> set r \<and> wsOutside r False)"
| "wsOutside (Bol # r) g = wsOutside r g"
| "wsOutside (Eol # r) g = wsOutside r g"

definition framed :: "rx list \<Rightarrow> bool \<Rightarrow> jsstring \<Rightarrow> jsstring \<Rightarrow> nat \<Rightarrow> jsstring \<Rightarrow> nat \<Rightarrow> bool" where
  "framed pat g cap s n cap' n' \<longleftrightarrow>
     (\<exists>k. n' = n + k \<and> k \<le> length s \<and>
        (if g then \<exists>d. cap' = cap @ d \<and> nonSpace (take k s) = nonSpace d @ aft pat
         else if GOpen \<in> set pat then nonSpace (take k s) = bef pat @ nonSpace cap' @ aft pat
         else cap' = cap \<and> nonSpace (take k s) = bef pat))"

section \<open>The line step and claim C9\<close>

lemma split_nonempty: "split sep s \<noteq> []"
  by (induction s) (auto split: list.splits)

lemma split_no_sep: "l \<in> set (split sep s) \<Longrightarrow> sep \<notin> set l"
proof (induction s arbitrary: l)
  case Nil
  then show ?case by simp
next
  case (Cons x xs)
  show ?case
  proof (cases "x = sep")
    case True
    with Cons show ?thesis by auto
  next
    case False
    then obtain y ys where sp: "split sep xs = y # ys"
      using split_nonempty [of sep xs] by (cases "split sep xs") auto
    with False Cons.prems have "l = x # y \<or> l \<in> set ys" by auto
    then show ?thesis
    proof
      assume "l = x # y"
      moreover have "sep \<notin> set y" using Cons.IH[of y] sp by simp
      ultimately show ?thesis using False by auto
    next
      assume "l \<in> set ys"
      then show ?thesis using Cons.IH[of l] sp by simp
    qed
  qed
qed

lemma set_trim: "set (trim s) \<subseteq> set s"
proof -
  have "set (trim s) \<subseteq> set (dropWhile isSpace s)"
    unfolding trim_def using set_dropWhileD by fastforce
  also have "\<dots> \<subseteq> set s" using set_dropWhileD by fastforce
  finally show ?thesis .
qed

lemma processLines_no_LF: "LF \<notin> set (processLines s)"
proof
  assume "LF \<in> set (processLines s)"
  then obtain l where l: "l \<in> set (split LF s)" and "LF \<in> set (trim l)"
    by (auto simp: processLines_def)
  then have "LF \<in> set l" using set_trim by blast
  with l show False using split_no_sep by blast
qed

text \<open>
  Claim C9.  For every input string the output of \<open>advancedCompress\<close> is a single
  line: it contains no line feed, whatever the thirteen rules did, because the last step
  splits at the line feeds, trims the pieces, drops the empty ones and joins the rest
  without a separator.
\<close>

theorem advancedCompress_single_line: "LF \<notin> set (advancedCompress content)"
  by (simp add: advancedCompress_def processLines_no_LF)

section \<open>Pipelines and claim C7\<close>

lemma foldl_pipe: "foldl (\<lambda>acc fn. pipe acc fn) f fs s = applyStages fs (f s)"
  by (induction fs arbitrary: f) (simp_all add: pipe_def)

text \<open>
  Claim C7.  A pipeline created from a non-empty sequence of stages is their composition
  from left to right, every stage applied once; the default pipeline is
  \<open>advancedCompress\<close> after \<open>removeCommentsWithAST\<close>.  (On the empty sequence
  \<^verbatim>\<open>reduce\<close> throws, so no pipeline is created.)
\<close>

theorem pipeline_composition:
  "(fns \<noteq> [] \<longrightarrow>
      (\<exists>p. createCompressionPipeline fns = Inr p \<and> (\<forall>s. p s = applyStages fns s)))
   \<and> (\<exists>p. defaultCompressionPipeline w = Inr p
          \<and> (\<forall>s. p s = advancedCompress (removeCommentsWithAST w s)))"
proof (intro conjI impI)
  assume "fns \<noteq> []"
  then obtain f fs where "fns = f # fs" by (cases fns) auto
  then show "\<exists>p. createCompressionPipeline fns = Inr p \<and> (\<forall>s. p s = applyStages fns s)"
    by (simp add: createCompressionPipeline_def reduce_def foldl_pipe)
next
  show "\<exists>p. defaultCompressionPipeline w = Inr p
          \<and> (\<forall>s. p s = advancedCompress (removeCommentsWithAST w s))"
    by (simp add: defaultCompressionPipeline_def createCompressionPipeline_def reduce_def
          pipe_def)
qed

theorem pipeline_composition_witness:
  "[trim, advancedCompress] \<noteq> []
   \<and> (\<exists>p. createCompressionPipeline [trim, advancedCompress] = Inr p
          \<and> p (js '' a = 1 '') = js ''a=1'')"
proof -
  have "applyStages [trim, advancedCompress] (js '' a = 1 '') = js ''a=1''"
    by code_simp
  moreover obtain p where "createCompressionPipeline [trim, advancedCompress] = Inr p"
    and "\<forall>s. p s = applyStages [trim, advancedCompress] s"
    using pipeline_composition [of "[trim, advancedCompress]" sample_world] by auto
  ultimately show ?thesis by simp
qed

section \<open>Statistics and claim C2\<close>

text \<open>
  Claim C2 gives the ratio as \<open>round((1 - compressedSize / originalSize) \<times> 100)\<close>.
  The code computes this expression with doubles: the quotient, the difference and the
  product are each rounded to 53 bits before \<^verbatim>\<open>Math.round\<close> is applied.  For the sizes
  40 and 17 the formula gives \<open>round(57.5) = 58\<close>; in doubles \<open>17 / 40\<close> is a little above
  \<open>0.425\<close>, the product is a little below \<open>57.5\<close>, and the code returns 57.
\<close>

theorem calculateStats_formula_counterexample:
  "ratio (calculateStats 40 17) \<noteq> roundHalfUp (exactPercent 40 17)"
  by code_simp

lemma pow2_powi: "pow2 e = power_int 2 e"
  by (simp add: pow2_def power_int_def inverse_eq_divide power_one_over)

lemma pow2_pos: "0 < pow2 e"
  by (simp add: pow2_powi)

lemma pow2_diff: "pow2 (a - b) = pow2 a / pow2 b"
  by (simp add: pow2_powi power_int_diff)

lemma pow2_nat: "0 \<le> e \<Longrightarrow> pow2 e = 2 ^ nat e"
  by (simp add: pow2_def)

lemma roundTiesToEven_error: "\<bar>of_int (roundTiesToEven y) - y\<bar> \<le> 1 / 2"
proof -
  let ?f = "\<lfloor>y\<rfloor>"
  have A: "of_int ?f \<le> y" and B: "y < of_int ?f + 1" by linarith+
  consider (lo) "y - of_int ?f < 1 / 2" | (hi) "1 / 2 < y - of_int ?f" | (tie) "y - of_int ?f = 1 / 2"
    by linarith
  then show ?thesis
  proof cases
    case lo
    then have e: "roundTiesToEven y = ?f" by (simp add: roundTiesToEven_def Let_def)
    show ?thesis unfolding e using A lo by linarith
  next
    case hi
    then have "roundTiesToEven y = ?f + 1" by (simp add: roundTiesToEven_def Let_def)
    then have e: "of_int (roundTiesToEven y) = (of_int ?f :: rat) + 1" by simp
    show ?thesis unfolding e using B hi by linarith
  next
    case tie
    then have "roundTiesToEven y = ?f \<or> roundTiesToEven y = ?f + 1"
      by (simp add: roundTiesToEven_def Let_def)
    then have "of_int (roundTiesToEven y) = (of_int ?f :: rat)
               \<or> of_int (roundTiesToEven y) = (of_int ?f :: rat) + 1" by auto
    then show ?thesis
    proof
      assume e: "of_int (roundTiesToEven y) = (of_int ?f :: rat)"
      show ?thesis unfolding e using tie by linarith
    next
      assume e: "of_int (roundTiesToEven y) = (of_int ?f :: rat) + 1"
      show ?thesis unfolding e using tie by linarith
    qed
  qed
qed

lemma binade_le:
  assumes "0 < a"
  shows "pow2 (binade a) \<le> a"
proof -
  obtain p q where pq: "quotient_of a = (p, q)" by (cases "quotient_of a")
  from quotient_of_denom_pos [OF pq] have q: "0 < q" .
  from quotient_of_div [OF pq] have a: "a = of_int p / of_int q" .
  with assms q have p: "0 < p" by (simp add: zero_less_divide_iff)
  let ?d = "bitlen p - bitlen q"
  show ?thesis
  proof (cases "pow2 ?d \<le> a")
    case True
    then show ?thesis by (simp add: binade_def pq)
  next
    case False
    from bitlen_bounds [OF p] have "2 ^ nat (bitlen p - 1) \<le> p" by simp
    then have "(of_int (2 ^ nat (bitlen p - 1)) :: rat) \<le> of_int p" by (simp only: of_int_le_iff)
    moreover have "1 \<le> bitlen p" using p by (simp add: bitlen_alt_def)
    ultimately have 1: "pow2 (bitlen p - 1) \<le> of_int p" by (simp add: pow2_nat)
    from bitlen_bounds [OF q] have "q \<le> 2 ^ nat (bitlen q)" by simp
    then have "(of_int q :: rat) \<le> of_int (2 ^ nat (bitlen q))" by (simp only: of_int_le_iff)
    then have 2: "of_int q \<le> pow2 (bitlen q)" by (simp add: pow2_nat bitlen_nonneg)
    have "pow2 (?d - 1) = pow2 (bitlen p - 1) / pow2 (bitlen q)"
      using pow2_diff [of "bitlen p - 1" "bitlen q"] by (simp add: algebra_simps)
    also have "\<dots> \<le> of_int p / of_int q"
      using 1 2 q pow2_pos [of "bitlen p - 1"] by (intro frac_le) simp_all
    finally have 3: "pow2 (?d - 1) \<le> a" unfolding a .
    have "binade a = ?d - 1" using False by (simp add: binade_def pq)
    with 3 show ?thesis by simp
  qed
qed

lemma double_error: "\<bar>double x - x\<bar> \<le> \<bar>x\<bar> / 2 ^ 53"
proof (cases "x = 0")
  case True
  then show ?thesis by (simp add: double_def)
next
  case False
  let ?u = "pow2 (binade \<bar>x\<bar> - 52)"
  have up: "0 < ?u" by (rule pow2_pos)
  have "?u = pow2 (binade \<bar>x\<bar>) / 2 ^ 52"
    using pow2_diff [of "binade \<bar>x\<bar>" 52] by (simp add: pow2_def)
  also have "\<dots> \<le> \<bar>x\<bar> / 2 ^ 52"
    using binade_le [of "\<bar>x\<bar>"] False by (simp add: divide_right_mono)
  finally have u: "?u \<le> \<bar>x\<bar> / 2 ^ 52" .
  have "double x - x = (of_int (roundTiesToEven (x / ?u)) - x / ?u) * ?u"
    using False up by (simp add: double_def Let_def algebra_simps)
  then have "\<bar>double x - x\<bar> = \<bar>of_int (roundTiesToEven (x / ?u)) - x / ?u\<bar> * ?u"
    using up by (simp add: abs_mult)
  also have "\<dots> \<le> 1 / 2 * ?u"
    using roundTiesToEven_error [of "x / ?u"] up by (intro mult_right_mono) simp_all
  also have "\<dots> \<le> 1 / 2 * (\<bar>x\<bar> / 2 ^ 52)"
    using u by simp
  finally show ?thesis by simp
qed

lemma percent_error:
  fixes q d1 d2 d3 :: rat
  assumes q: "0 \<le> q"
    and e1: "\<bar>d1 - q\<bar> \<le> \<bar>q\<bar> / 2 ^ 53"
    and e2: "\<bar>d2 - (1 - d1)\<bar> \<le> \<bar>1 - d1\<bar> / 2 ^ 53"
    and e3: "\<bar>d3 - d2 * 100\<bar> \<le> \<bar>d2 * 100\<bar> / 2 ^ 53"
  shows "\<bar>d3 - (1 - q) * 100\<bar> \<le> (3 + 7 * q) * 100 / 2 ^ 53"
proof -
  let ?N = "9007199254740992 :: rat"
  have p: "(2::rat) ^ 53 = ?N" by simp
  note f1 = e1 [unfolded p] and f2 = e2 [unfolded p] and f3 = e3 [unfolded p]
  from q have "\<bar>q\<bar> / ?N \<le> q" by simp
  with f1 have g1: "\<bar>d1 - q\<bar> \<le> q" by (rule order_trans)
  from q f1 have h1: "\<bar>d1 - q\<bar> \<le> q / ?N" by simp
  have a: "\<bar>1 - d1\<bar> \<le> 1 + 2 * q" using q g1 by linarith
  then have "\<bar>1 - d1\<bar> / ?N \<le> (1 + 2 * q) / ?N" by (simp add: divide_right_mono)
  with f2 have h2: "\<bar>d2 - (1 - d1)\<bar> \<le> (1 + 2 * q) / ?N" by (rule order_trans)
  have "(1 + 2 * q) / ?N \<le> 1 + 2 * q" using q by simp
  with h2 have g2: "\<bar>d2 - (1 - d1)\<bar> \<le> 1 + 2 * q" by (rule order_trans)
  have b: "\<bar>d2\<bar> \<le> 2 + 4 * q" using a g2 by linarith
  then have "\<bar>d2 * 100\<bar> / ?N \<le> (2 + 4 * q) * 100 / ?N" by (simp add: abs_mult)
  with f3 have h3: "\<bar>d3 - d2 * 100\<bar> \<le> (2 + 4 * q) * 100 / ?N" by (rule order_trans)
  have "\<bar>d2 - (1 - q)\<bar> = \<bar>(d2 - (1 - d1)) - (d1 - q)\<bar>" by simp
  also have "\<dots> \<le> \<bar>d2 - (1 - d1)\<bar> + \<bar>d1 - q\<bar>" by (rule abs_triangle_ineq4)
  also have "\<dots> \<le> (1 + 2 * q) / ?N + q / ?N" using h2 h1 by (rule add_mono)
  also have "\<dots> = (1 + 3 * q) / ?N" by (simp add: field_simps)
  finally have c: "\<bar>d2 - (1 - q)\<bar> \<le> (1 + 3 * q) / ?N" .
  have c': "\<bar>(d2 - (1 - q)) * 100\<bar> \<le> (1 + 3 * q) / ?N * 100"
  proof -
    have "\<bar>(d2 - (1 - q)) * 100\<bar> = \<bar>d2 - (1 - q)\<bar> * 100" by (simp only: abs_mult abs_numeral)
    also have "\<dots> \<le> (1 + 3 * q) / ?N * 100" using c by (rule mult_right_mono) simp
    finally show ?thesis .
  qed
  have "\<bar>d3 - (1 - q) * 100\<bar> = \<bar>(d3 - d2 * 100) + (d2 - (1 - q)) * 100\<bar>"
    by (simp add: algebra_simps)
  also have "\<dots> \<le> \<bar>d3 - d2 * 100\<bar> + \<bar>(d2 - (1 - q)) * 100\<bar>" by (rule abs_triangle_ineq)
  also have "\<dots> \<le> (2 + 4 * q) * 100 / ?N + (1 + 3 * q) / ?N * 100" using h3 c' by (rule add_mono)
  also have "\<dots> = (3 + 7 * q) * 100 / ?N" by (simp add: field_simps)
  finally have "\<bar>d3 - (1 - q) * 100\<bar> \<le> (3 + 7 * q) * 100 / ?N" .
  then show ?thesis unfolding p .
qed

lemma floor_close:
  fixes d x :: rat and n m :: int
  assumes n: "0 < n" and m: "of_int m = (x + 1 / 2) * of_int n"
    and c: "\<bar>d - x\<bar> < 1 / of_int n"
  shows "\<lfloor>d + 1 / 2\<rfloor> = \<lfloor>x + 1 / 2\<rfloor>
         \<or> (isTie x \<and> \<lfloor>d + 1 / 2\<rfloor> = \<lfloor>x + 1 / 2\<rfloor> - 1)"
proof -
  let ?y = "x + 1 / 2"
  let ?z = "d + 1 / 2"
  let ?k = "\<lfloor>?y\<rfloor>"
  have np: "(0::rat) < of_int n" using n by simp
  have n1: "1 / (of_int n :: rat) \<le> 1" using n by simp
  from c have z: "?y - 1 / of_int n < ?z" "?z < ?y + 1 / of_int n" by linarith+
  have k: "of_int ?k \<le> ?y" "?y < of_int ?k + 1" by linarith+
  show ?thesis
  proof (cases "?y = of_int ?k")
    case True
    then have t: "isTie x" by (simp add: isTie_def)
    have "of_int (?k - 1) \<le> ?z" "?z < of_int (?k - 1) + 2" using z n1 True by simp_all
    then have "\<lfloor>?z\<rfloor> = ?k - 1 \<or> \<lfloor>?z\<rfloor> = ?k" by linarith
    with t show ?thesis by auto
  next
    case False
    have kl: "of_int ?k \<le> ?y" by (rule of_int_floor_le)
    have lo: "of_int ?k < ?y"
    proof (rule le_neq_trans [OF kl])
      show "of_int ?k \<noteq> ?y" using False by (rule not_sym)
    qed
    have "(of_int (m - ?k * n) :: rat) = (?y - of_int ?k) * of_int n"
      using m by (simp add: algebra_simps)
    also have "\<dots> > 0" using lo np by simp
    finally have "0 < m - ?k * n" by (simp only: of_int_0_less_iff)
    then have "1 \<le> m - ?k * n" by simp
    then have "(1::rat) \<le> of_int (m - ?k * n)" by (simp only: of_int_1_le_iff)
    also have "\<dots> = (?y - of_int ?k) * of_int n" using m by (simp add: algebra_simps)
    finally have a: "1 / of_int n \<le> ?y - of_int ?k" using np by (simp add: field_simps)
    have "(of_int ((?k + 1) * n - m) :: rat) = (of_int ?k + 1 - ?y) * of_int n"
      using m by (simp add: algebra_simps)
    also have "\<dots> > 0" using k(2) np by simp
    finally have "0 < (?k + 1) * n - m" by (simp only: of_int_0_less_iff)
    then have "1 \<le> (?k + 1) * n - m" by simp
    then have "(1::rat) \<le> of_int ((?k + 1) * n - m)" by (simp only: of_int_1_le_iff)
    also have "\<dots> = (of_int ?k + 1 - ?y) * of_int n" using m by (simp add: algebra_simps)
    finally have b: "1 / of_int n \<le> of_int ?k + 1 - ?y" using np by (simp add: field_simps)
    from z a b have "of_int ?k \<le> ?z" "?z < of_int ?k + 1" by linarith+
    then have "\<lfloor>?z\<rfloor> = ?k" by linarith
    then show ?thesis by simp
  qed
qed

lemma size_bound:
  assumes "0 < osz" and "osz \<le> 2 ^ 40" and "csz \<le> 2 ^ 40"
  shows "(3 + 7 * (of_nat csz / of_nat osz)) * 100 / 2 ^ 53 < 1 / (of_int (2 * int osz) :: rat)"
proof -
  have o: "(0::rat) < of_nat osz" using assms(1) by simp
  have "(of_nat osz :: rat) \<le> of_nat (2 ^ 40)" using assms(2) by (simp only: of_nat_le_iff)
  then have o40: "(of_nat osz :: rat) \<le> 2 ^ 40" by simp
  have "(of_nat csz :: rat) \<le> of_nat (2 ^ 40)" using assms(3) by (simp only: of_nat_le_iff)
  then have c40: "(of_nat csz :: rat) \<le> 2 ^ 40" by simp
  have "(3 * of_nat osz + 7 * of_nat csz) * 200 \<le> (3 * 2 ^ 40 + 7 * 2 ^ 40) * (200::rat)"
    using o40 c40 by simp
  also have "\<dots> < 2 ^ 53" by simp
  finally have "(3 * of_nat osz + 7 * of_nat csz) * 200 < (2::rat) ^ 53" .
  then have f: "(3 * of_nat osz + 7 * of_nat csz) * 200 / (2::rat) ^ 53 < 1" by simp
  have b: "(0::rat) < 1 / of_int (2 * int osz)" using assms(1) by simp
  have "(3 + 7 * (of_nat csz / of_nat osz)) * 100 / 2 ^ 53
          = (3 * of_nat osz + 7 * of_nat csz) * 200 / (2::rat) ^ 53 * (1 / of_int (2 * int osz))"
    using o by (simp add: field_simps)
  also have "\<dots> < 1 * (1 / of_int (2 * int osz))"
    using f b by (rule mult_strict_right_mono)
  finally show ?thesis by simp
qed

lemma ratio_close:
  assumes "0 < osz" and "osz \<le> 2 ^ 40" and "csz \<le> 2 ^ 40"
  shows "ratio (calculateStats osz csz) = roundHalfUp (exactPercent osz csz)
         \<or> (isTie (exactPercent osz csz)
            \<and> ratio (calculateStats osz csz) = roundHalfUp (exactPercent osz csz) - 1)"
proof -
  let ?q = "of_nat csz / of_nat osz :: rat"
  let ?d1 = "num_div (of_nat csz) (of_nat osz)"
  let ?d2 = "num_sub 1 ?d1"
  let ?d3 = "num_mul ?d2 100"
  have r: "ratio (calculateStats osz csz) = \<lfloor>?d3 + 1 / 2\<rfloor>"
    using assms(1) by (simp add: calculateStats_def Math_round_def)
  have q: "0 \<le> ?q" by simp
  have "\<bar>?d3 - (1 - ?q) * 100\<bar> \<le> (3 + 7 * ?q) * 100 / 2 ^ 53"
    using q unfolding num_div_def num_sub_def num_mul_def
    by (rule percent_error) (rule double_error)+
  also note size_bound [OF assms]
  finally have c: "\<bar>?d3 - exactPercent osz csz\<bar> < 1 / of_int (2 * int osz)"
    by (simp add: exactPercent_def)
  have m: "of_int (200 * (int osz - int csz) + int osz)
             = (exactPercent osz csz + 1 / 2) * (of_int (2 * int osz) :: rat)"
    using assms(1) by (simp add: exactPercent_def field_simps)
  from floor_close [OF _ m c] assms(1) r show ?thesis by (simp add: roundHalfUp_def)
qed

text \<open>
  Claim C2, amended.  \<open>calculateStats\<close> returns its two arguments in \<open>originalSize\<close>
  and \<open>compressedSize\<close>; for original size \<open>0\<close> the ratio is \<open>0\<close>, without a division;
  for a positive original size (and sizes up to \<open>2^40\<close>) the ratio is the formula
  \<open>round((1 - compressedSize / originalSize) \<times> 100)\<close> wherever the exact value is not a
  tie between two integers, and at a tie \<open>k + 1/2\<close> it is \<open>k + 1\<close> or \<open>k\<close>, as the rounding
  of the double operations falls.
\<close>

theorem calculateStats_formula:
  "originalSize (calculateStats osz csz) = osz
   \<and> compressedSize (calculateStats osz csz) = csz
   \<and> (osz = 0 \<longrightarrow> ratio (calculateStats osz csz) = 0)
   \<and> (0 < osz \<and> osz \<le> 2 ^ 40 \<and> csz \<le> 2 ^ 40 \<longrightarrow>
        ratio (calculateStats osz csz) = roundHalfUp (exactPercent osz csz)
        \<or> (isTie (exactPercent osz csz)
           \<and> ratio (calculateStats osz csz) = roundHalfUp (exactPercent osz csz) - 1))"
proof (intro conjI impI)
  show "originalSize (calculateStats osz csz) = osz" by (simp add: calculateStats_def)
  show "compressedSize (calculateStats osz csz) = csz" by (simp add: calculateStats_def)
  show "ratio (calculateStats osz csz) = 0" if "osz = 0"
    using that by (simp add: calculateStats_def)
  show "ratio (calculateStats osz csz) = roundHalfUp (exactPercent osz csz)
        \<or> (isTie (exactPercent osz csz)
           \<and> ratio (calculateStats osz csz) = roundHalfUp (exactPercent osz csz) - 1)"
    if "0 < osz \<and> osz \<le> 2 ^ 40 \<and> csz \<le> 2 ^ 40"
    using that by (intro ratio_close) simp_all
qed

theorem calculateStats_formula_witness:
  "calculateStats 12 10 = \<lparr>originalSize = 12, compressedSize = 10, ratio = 17\<rparr>
   \<and> roundHalfUp (exactPercent 12 10) = 17 \<and> \<not> isTie (exactPercent 12 10)
   \<and> calculateStats 40 17 = \<lparr>originalSize = 40, compressedSize = 17, ratio = 57\<rparr>
   \<and> roundHalfUp (exactPercent 40 17) = 58 \<and> isTie (exactPercent 40 17)
   \<and> calculateStats 0 4 = \<lparr>originalSize = 0, compressedSize = 4, ratio = 0\<rparr>"
proof -
  have a: "roundHalfUp (exactPercent 12 10) = 17" "\<not> isTie (exactPercent 12 10)"
    "roundHalfUp (exactPercent 40 17) = 58" "isTie (exactPercent 40 17)"
    by code_simp+
  have b: "ratio (calculateStats 40 17) \<noteq> 58"
    by code_simp
  have c: "(0::nat) < 12 \<and> (12::nat) \<le> 2 ^ 40 \<and> (10::nat) \<le> 2 ^ 40"
    "(0::nat) < 40 \<and> (40::nat) \<le> 2 ^ 40 \<and> (17::nat) \<le> 2 ^ 40"
    by simp_all
  from calculateStats_formula [of 12 10] calculateStats_formula [of 40 17]
    calculateStats_formula [of 0 4] a b c
  show ?thesis by auto
qed

section \<open>The file filter and claim C10\<close>

text \<open>
  Claim C10.  Whatever the include and exclude patterns are, the predicate that
  \<open>createFileFilter\<close> returns is false on every file name that does not end in
  \<^verbatim>\<open>.ts\<close>.
\<close>

theorem createFileFilter_only_ts:
  "createFileFilter w includes excludes = Inr fileFilter
   \<Longrightarrow> \<not> endsWith fileName (js ''.ts'') \<Longrightarrow> \<not> fileFilter fileName"
  by (auto simp: createFileFilter_def split: sum.splits)

lemma sample_filter:
  "\<exists>f. createFileFilter sample_world [js ''*.js''] [] = Inr f"
  by (simp add: createFileFilter_def sample_world_def patternToRegex_def)

theorem createFileFilter_only_ts_witness:
  "\<exists>f. createFileFilter sample_world [js ''*.js''] [] = Inr f
       \<and> \<not> endsWith (js ''a.js'') (js ''.ts'') \<and> \<not> f (js ''a.js'')"
proof -
  obtain f where f: "createFileFilter sample_world [js ''*.js''] [] = Inr f"
    using sample_filter by blast
  have n: "\<not> endsWith (js ''a.js'') (js ''.ts'')"
    by (simp add: endsWith_def js_def)
  from createFileFilter_only_ts [OF f n] f n show ?thesis by blast
qed

section \<open>Empty inputs and claim C8\<close>

lemma defaultCompressionPipeline_Inr:
  "defaultCompressionPipeline w = Inr (\<lambda>a. advancedCompress (removeCommentsWithAST w a))"
  by (simp add: defaultCompressionPipeline_def createCompressionPipeline_def reduce_def pipe_def)

text \<open>
  Claim C8.  When the file discovery returns the empty list, the batch run throws
  \<^verbatim>\<open>No TypeScript files found in <targetDir>\<close>; when the selection resolves to no
  file, \<open>compressSelectedFiles\<close> throws \<^verbatim>\<open>No files selected\<close>.  In both cases the
  outcome is the error alone, with no result beside it.
\<close>

theorem empty_input_errors:
  "(getTypeScriptFiles w (targetDir options) (includePatterns options) (excludePatterns options)
       = Inr []
     \<longrightarrow> compressTypeScriptFiles w options
           = Inl (Error (js ''No TypeScript files found in '' @ targetDir options)))
   \<and> (selectedFiles fileList selectedIndices = []
     \<longrightarrow> compressSelectedFiles w fileList selectedIndices baseDir preserve
           = Inl (Error (js ''No files selected'')))"
  by (simp add: compressTypeScriptFiles_def compressSelectedFiles_def
        defaultCompressionPipeline_Inr)

theorem empty_input_errors_witness:
  "getTypeScriptFiles sample_world (js ''/q'') None None = Inr []
   \<and> compressTypeScriptFiles sample_world (sample_options\<lparr>targetDir := js ''/q''\<rparr>)
       = Inl (Error (js ''No TypeScript files found in /q''))
   \<and> selectedFiles [js ''/p/a.ts'', js ''/p/b.ts''] [5, -1] = []
   \<and> compressSelectedFiles sample_world [js ''/p/a.ts'', js ''/p/b.ts''] [5, -1] (js ''/p'') False
       = Inl (Error (js ''No files selected''))"
proof -
  have a: "getTypeScriptFiles sample_world (js ''/q'') None None = Inr []"
    by (simp add: getTypeScriptFiles_def createFileFilter_def patternToRegex_def
          sample_world_def js_def)
  have b: "selectedFiles [js ''/p/a.ts'', js ''/p/b.ts''] [5, -1] = []"
    by (simp add: selectedFiles_def List.map_filter_def)
  have c: "targetDir (sample_options\<lparr>targetDir := js ''/q''\<rparr>) = js ''/q''"
      "includePatterns (sample_options\<lparr>targetDir := js ''/q''\<rparr>) = None"
      "excludePatterns (sample_options\<lparr>targetDir := js ''/q''\<rparr>) = None"
    by (simp_all add: sample_options_def)
  from empty_input_errors [of sample_world "sample_options\<lparr>targetDir := js ''/q''\<rparr>"
      "[js ''/p/a.ts'', js ''/p/b.ts'']" "[5, -1]" "js ''/p''" False] a b c
  show ?thesis by (simp add: js_def)
qed

section \<open>Output format and claim C4\<close>

lemma join_Cons:
  "join sep (x # xs) = x @ concat (map (\<lambda>y. sep @ y) xs)"
  by (induction xs arbitrary: x) simp_all

lemma join_empty_sep: "join [] xs = concat xs"
  by (induction "[] :: jsstring" xs rule: join.induct) simp_all

text \<open>
  Claim C4 says that the block-delimited form is exactly the tag
  \<^verbatim>\<open>/*=== relativePath ===*/\<close>, a line feed, the compressed content and a line feed.
  The code puts a line feed in front of the tag as well, so the claimed string is not what
  \<open>formatFileOutput\<close> returns.
\<close>

theorem formatFileOutput_block_counterexample:
  "formatFileOutput sample_world
      \<lparr>path = js ''/p/a.ts'', originalContent = js ''const x = 1;'',
       compressedContent = js ''const x=1;'', stats = calculateStats 12 10\<rparr>
      (js ''/p'') True
   \<noteq> js ''/*=== a.ts ===*/'' @ [LF] @ js ''const x=1;'' @ [LF]"
  by (simp add: formatFileOutput_def getRelativePath_def sample_world_def js_def LF_def)

text \<open>
  Claim C4, amended.  Without structure preservation \<open>formatFileOutput\<close> returns
  \<^verbatim>\<open>/*relativePath*/\<close> followed by the compressed content.  With structure
  preservation it returns a line feed, the tag \<^verbatim>\<open>/*=== relativePath ===*/\<close>, a line
  feed, the compressed content and a line feed.  \<open>generateOutput\<close> concatenates the
  formatted files, with nothing between them in compact mode and one more line feed
  between two neighbours in block mode.
\<close>

theorem output_format:
  "formatFileOutput w file baseDir False
     = js ''/*'' @ getRelativePath w (path file) baseDir @ js ''*/'' @ compressedContent file
   \<and> formatFileOutput w file baseDir True
     = [LF] @ js ''/*=== '' @ getRelativePath w (path file) baseDir @ js '' ===*/'' @ [LF]
       @ compressedContent file @ [LF]
   \<and> generateOutput w fs baseDir False
     = concat (map (\<lambda>f. formatFileOutput w f baseDir False) fs)
   \<and> generateOutput w [] baseDir True = []
   \<and> generateOutput w (file # fs) baseDir True
     = formatFileOutput w file baseDir True
       @ concat (map (\<lambda>f. [LF] @ formatFileOutput w f baseDir True) fs)"
  by (simp add: formatFileOutput_def generateOutput_def join_empty_sep join_Cons comp_def)

section \<open>Batch totals and claim C3\<close>

lemma collect_Inr_map:
  "collect f xs = Inr ys \<Longrightarrow> list_all2 (\<lambda>x y. f x = Inr y) xs ys"
  by (induction xs arbitrary: ys) (auto split: sum.splits)

lemma collect_total:
  "\<forall>x \<in> set xs. \<exists>y. f x = Inr y \<Longrightarrow> \<exists>ys. collect f xs = Inr ys"
  by (induction xs) (auto split: sum.splits)

lemma aggregateStats_foldl:
  "foldl (\<lambda>(totalOriginalSize, totalCompressedSize) file.
              (totalOriginalSize + originalSize (stats file),
               totalCompressedSize + compressedSize (stats file))) (a, b) fs
   = (a + sum_list (map (\<lambda>f. originalSize (stats f)) fs),
      b + sum_list (map (\<lambda>f. compressedSize (stats f)) fs))"
  by (induction fs arbitrary: a b) simp_all

lemma aggregateStats_sums:
  "aggregateStats fs = (sum_list (map (\<lambda>f. originalSize (stats f)) fs),
                        sum_list (map (\<lambda>f. compressedSize (stats f)) fs))"
  by (simp add: aggregateStats_def aggregateStats_foldl)

lemma length_join_ge: "sum_list (map length xs) \<le> length (join sep xs)"
  by (induction sep xs rule: join.induct) simp_all

lemma length_formatFileOutput:
  "length (compressedContent file) + 4 \<le> length (formatFileOutput w file baseDir preserve)"
  by (simp add: formatFileOutput_def js_def Let_def)

lemma length_generateOutput:
  "sum_list (map (\<lambda>f. length (compressedContent f) + 4) fs)
     \<le> length (generateOutput w fs baseDir preserve)"
proof -
  have "sum_list (map (\<lambda>f. length (compressedContent f) + 4) fs)
      \<le> sum_list (map length (map (\<lambda>file. formatFileOutput w file baseDir preserve) fs))"
    unfolding map_map comp_def
    by (rule sum_list_mono) (simp add: length_formatFileOutput)
  also have "\<dots> \<le> length (generateOutput w fs baseDir preserve)"
    unfolding generateOutput_def by (rule length_join_ge)
  finally show ?thesis .
qed

lemma calculateStats_sel [simp]:
  "originalSize (calculateStats a b) = a" "compressedSize (calculateStats a b) = b"
  by (simp_all add: calculateStats_def)

lemma processFile_stats:
  "processFile w p c = Inr file \<Longrightarrow>
     path file = p \<and> originalSize (stats file) = length (originalContent file)
     \<and> compressedSize (stats file) = length (compressedContent file)"
  by (auto simp: processFile_def Let_def split: sum.splits)

lemma processed_all:
  "list_all2 (\<lambda>x y. processFile w x c = Inr y) ps fs \<Longrightarrow>
     map path fs = ps
     \<and> (\<forall>f \<in> set fs. originalSize (stats f) = length (originalContent f)
                       \<and> compressedSize (stats f) = length (compressedContent f))"
  by (induction ps fs rule: list_all2_induct) (auto dest: processFile_stats)

text \<open>
  Claim C3.  When the discovery returns a non-empty list of files and every file can be
  read, the batch run returns a result; it holds one processed file per path, in order;
  the \<open>compressedSize\<close> of \<open>totalStats\<close> is the length of the output string, which
  is strictly more than the sum of the files' compressed sizes because of the tags; and
  the \<open>originalSize\<close> of \<open>totalStats\<close> is the sum of the files' original sizes, that
  is, of the lengths of their contents.
\<close>

theorem batch_totals:
  assumes "getTypeScriptFiles w (targetDir options) (includePatterns options)
             (excludePatterns options) = Inr fileList"
    and "fileList \<noteq> []"
    and "\<forall>p \<in> set fileList. \<exists>content. fs_readFile w p = Inr content"
  shows "\<exists>res. compressTypeScriptFiles w options = Inr res
     \<and> map path (files res) = fileList
     \<and> compressedSize (totalStats res) = length (output res)
     \<and> originalSize (totalStats res)
         = sum_list (map (\<lambda>f. originalSize (stats f)) (files res))
     \<and> originalSize (totalStats res)
         = sum_list (map (\<lambda>f. length (originalContent f)) (files res))
     \<and> sum_list (map (\<lambda>f. compressedSize (stats f)) (files res)) < length (output res)"
proof -
  let ?c = "\<lambda>a. advancedCompress (removeCommentsWithAST w a)"
  have "\<forall>p \<in> set fileList. \<exists>y. processFile w p ?c = Inr y"
    using assms(3) by (auto simp: processFile_def Let_def)
  then obtain fs where fs: "collect (\<lambda>file. processFile w file ?c) fileList = Inr fs"
    using collect_total [of fileList "\<lambda>file. processFile w file ?c"] by auto
  then have all2: "list_all2 (\<lambda>x y. processFile w x ?c = Inr y) fileList fs"
    by (rule collect_Inr_map)
  from processed_all [OF all2] have paths: "map path fs = fileList"
    and sz: "\<forall>f \<in> set fs. originalSize (stats f) = length (originalContent f)
                       \<and> compressedSize (stats f) = length (compressedContent f)"
    by simp_all
  from paths assms(2) have ne: "fs \<noteq> []" by auto
  let ?pres = "case preserveStructure options of None \<Rightarrow> False | Some b \<Rightarrow> b"
  let ?out = "generateOutput w fs (targetDir options) ?pres"
  let ?res = "\<lparr>files = fs,
               totalStats = calculateStats (fst (aggregateStats fs)) (length ?out),
               output = ?out\<rparr>"
  have run: "compressTypeScriptFiles w options = Inr ?res"
    using assms(1,2) fs
    by (simp add: compressTypeScriptFiles_def defaultCompressionPipeline_Inr Let_def)
  have o1: "sum_list (map (\<lambda>f. originalSize (stats f)) fs)
          = sum_list (map (\<lambda>f. length (originalContent f)) fs)"
    using sz by (intro arg_cong [where f = sum_list] map_cong) simp_all
  have c1: "sum_list (map (\<lambda>f. compressedSize (stats f)) fs)
          = sum_list (map (\<lambda>f. length (compressedContent f)) fs)"
    using sz by (intro arg_cong [where f = sum_list] map_cong) simp_all
  have "sum_list (map (\<lambda>f. length (compressedContent f)) fs) + 4 * length fs
          = sum_list (map (\<lambda>f. length (compressedContent f) + 4) fs)"
    by (induction fs) simp_all
  moreover have "0 < length fs" using ne by simp
  ultimately have lt: "sum_list (map (\<lambda>f. length (compressedContent f)) fs) < length ?out"
    using length_generateOutput [of fs w "targetDir options" ?pres] by linarith
  show ?thesis
    using run paths o1 c1 lt
    by (simp add: aggregateStats_sums)
qed

theorem batch_totals_witness:
  "\<exists>res. compressTypeScriptFiles sample_world sample_options = Inr res
     \<and> map path (files res) = [js ''/p/a.ts'', js ''/p/b.ts'']
     \<and> compressedSize (totalStats res) = length (output res)
     \<and> length (output res) = 38
     \<and> originalSize (totalStats res) = 30
     \<and> sum_list (map (\<lambda>f. compressedSize (stats f)) (files res)) < length (output res)"
proof -
  have a: "getTypeScriptFiles sample_world (targetDir sample_options)
             (includePatterns sample_options) (excludePatterns sample_options)
           = Inr [js ''/p/a.ts'', js ''/p/b.ts'']"
    by (simp add: getTypeScriptFiles_def createFileFilter_def patternToRegex_def
          sample_world_def sample_options_def js_def)
  have b: "[js ''/p/a.ts'', js ''/p/b.ts''] \<noteq> []" by simp
  have c: "\<forall>p \<in> set [js ''/p/a.ts'', js ''/p/b.ts''].
             \<exists>content. fs_readFile sample_world p = Inr content"
    by (simp add: sample_world_def js_def)
  have ev: "case compressTypeScriptFiles sample_world sample_options of
              Inl e \<Rightarrow> False
            | Inr res \<Rightarrow> length (output res) = 38 \<and> originalSize (totalStats res) = 30"
    by code_simp
  from batch_totals [OF a b c] ev show ?thesis
    by (auto split: sum.splits)
qed

section \<open>The matcher and the scan\<close>

lemma lt_is_space: "isLineTerminator c \<Longrightarrow> isSpace c"
  by (simp add: isSpace_def)

lemma punct_not_space: "isPunct c \<Longrightarrow> \<not> isSpace c"
  by (auto simp: isPunct_def isSpace_def isLineTerminator_def js_def)

lemma word_not_space: "isWord c \<Longrightarrow> \<not> isSpace c"
  unfolding isWord_def isAlpha_def isSpace_def isLineTerminator_def
  by (auto simp: word_le_nat_alt)

lemma LF_space: "isSpace LF" "isLineTerminator LF"
  by (simp_all add: isSpace_def isLineTerminator_def LF_def)

lemma prevAfter_append [simp]: "prevAfter p (u @ v) = prevAfter (prevAfter p u) v"
  by (induction u arbitrary: p) simp_all

lemma replaceFrom_skip:
  "k \<le> length s \<Longrightarrow>
     replaceFrom pat tmpl k p s = replaceFrom pat tmpl 0 (prevAfter p (take k s)) (drop k s)"
proof (induction k arbitrary: p s)
  case 0
  then show ?case by simp
next
  case (Suc k)
  then obtain x xs where "s = x # xs" by (cases s) auto
  with Suc show ?case by simp
qed

lemma matchAt_bounds:
  "matchAt pat p s g c n = Some (c', n') \<Longrightarrow> n \<le> n' \<and> n' \<le> n + length s"
proof (induction pat p s g c n arbitrary: c' n' rule: matchAt.induct)
qed (auto split: if_splits option.splits list.splits)

lemma matchAt_lits:
  "matchAt (map Lit a @ pat) p s g c n =
     (if take (length a) s = a
      then matchAt pat (prevAfter p a) (drop (length a) s) g (if g then c @ a else c) (n + length a)
      else None)"
proof (induction a arbitrary: p s c n)
  case Nil
  then show ?case by simp
next
  case (Cons y a)
  show ?case
  proof (cases s)
    case Nil
    then show ?thesis by simp
  next
    case (Cons x xs)
    then show ?thesis using Cons.IH [of "Some x" xs] by auto
  qed
qed

lemma matchAt_star_end:
  "matchAt [Star P] p s g c n =
     Some (if g then c @ takeWhile P s else c, n + length (takeWhile P s))"
  by (induction s arbitrary: p c n) auto

lemma matchAt_star_commit:
  assumes "\<And>x xs q g' c' n'. P x \<Longrightarrow> matchAt pat q (x # xs) g' c' n' = None"
  shows "matchAt (Star P # pat) p s g c n =
     matchAt pat (prevAfter p (takeWhile P s)) (dropWhile P s) g
       (if g then c @ takeWhile P s else c) (n + length (takeWhile P s))"
proof (induction s arbitrary: p c n)
  case Nil
  then show ?case by simp
next
  case (Cons x xs)
  show ?case
  proof (cases "P x")
    case True
    have "matchAt pat p (x # xs) g c n = None" using assms True by simp
    with True Cons show ?thesis by (auto split: option.splits)
  next
    case False
    then show ?thesis by simp
  qed
qed

lemma inv_drop:
  assumes hered: "\<And>p x xs. Inv p (x # xs) \<Longrightarrow> Inv (Some x) xs"
  shows "Inv p s \<Longrightarrow> k \<le> length s \<Longrightarrow> Inv (prevAfter p (take k s)) (drop k s)"
proof (induction k arbitrary: p s)
  case 0
  then show ?case by simp
next
  case (Suc k)
  then obtain x xs where s: "s = x # xs" by (cases s) auto
  with Suc.prems have "Inv (Some x) xs" using hered by blast
  with Suc s show ?case by simp
qed

lemma replaceFrom_id:
  assumes hered: "\<And>p x xs. Inv p (x # xs) \<Longrightarrow> Inv (Some x) xs"
    and self: "\<And>p s c n. Inv p s \<Longrightarrow> matchAt pat p s False [] 0 = Some (c, n)
                 \<Longrightarrow> 0 < n \<and> expand tmpl c = take n s"
  shows "Inv p s \<Longrightarrow> replaceFrom pat tmpl 0 p s = s"
proof (induction "length s" arbitrary: p s rule: less_induct)
  case less
  show ?case
  proof (cases s)
    case Nil
    show ?thesis
    proof (cases "matchAt pat p [] False [] 0")
      case None
      with Nil show ?thesis by simp
    next
      case (Some r)
      obtain c n where r: "r = (c, n)" by (cases r)
      from self [OF less.prems] Some r Nil have "0 < n" by simp
      moreover from matchAt_bounds [of pat p "[]" False "[]" 0 c n] Some r have "n \<le> 0" by simp
      ultimately show ?thesis by simp
    qed
  next
    case (Cons x xs)
    from hered less.prems Cons have ix: "Inv (Some x) xs" by blast
    show ?thesis
    proof (cases "matchAt pat p s False [] 0")
      case None
      with Cons less.hyps [of xs "Some x"] ix show ?thesis by simp
    next
      case (Some r)
      obtain c n where r: "r = (c, n)" by (cases r)
      from self [OF less.prems] Some r have n0: "0 < n" and e: "expand tmpl c = take n s"
        by simp_all
      then obtain k where k: "n = Suc k" by (cases n) auto
      from matchAt_bounds [of pat p s False "[]" 0 c n] Some r have "n \<le> length s" by simp
      with k Cons have kl: "k \<le> length xs" by simp
      have "Inv (prevAfter (Some x) (take k xs)) (drop k xs)"
        using inv_drop [of Inv, OF hered ix kl] .
      then have "replaceFrom pat tmpl 0 (prevAfter (Some x) (take k xs)) (drop k xs) = drop k xs"
        using less.hyps [of "drop k xs"] Cons by simp
      then have "replaceFrom pat tmpl k (Some x) xs = drop k xs"
        using replaceFrom_skip [OF kl] by simp
      with Some r k e Cons show ?thesis by simp
    qed
  qed
qed

section \<open>Texts that the rules leave unchanged\<close>

text \<open>
  The first rule changes nothing in a text without leading and trailing white space, the
  second nothing in a text without leading white space, the third nothing in a text without
  trailing white space; the fourth, the three rules that delete white space and the
  thirteenth change nothing in a tight text.
\<close>

lemma compressionRules_eq:
  "compressionRules =
     [rule1, rule2, rule3, rule4,
      tightenRule ''import'' ''{'', tightenRule ''}'' ''from'', tightenRule ''export'' ''{'',
      keywordRule ''export'' ''type'', keywordRule ''export'' ''const'',
      keywordRule ''export'' ''enum'', keywordRule ''export'' ''interface'',
      rule12, rule13]"
  by (simp add: compressionRules_def rule1_def rule2_def rule3_def rule4_def tightenRule_def
        keywordRule_def rule12_def rule13_def js_def)

lemma noLead_hered: "noLead p (x # xs) \<Longrightarrow> noLead (Some x) xs"
  by simp

lemma noTrail_hered: "noTrail (x # xs) \<Longrightarrow> noTrail xs"
  by simp

lemma tight_hered: "tight p (x # xs) \<Longrightarrow> tight (Some x) xs"
  by simp

lemma tight_drop: "tight p s \<Longrightarrow> tight (prevAfter p (take k s)) (drop k s)"
proof (induction k arbitrary: p s)
  case 0
  then show ?case by simp
next
  case (Suc k)
  then show ?case by (cases s) auto
qed

lemma tight_run_punct:
  "tight p (w @ y # ys) \<Longrightarrow> w \<noteq> [] \<Longrightarrow> \<forall>c \<in> set w. isSpace c \<Longrightarrow> \<not> isPunct y"
proof (induction w arbitrary: p)
  case Nil
  then show ?case by simp
next
  case (Cons a w)
  show ?case
  proof (cases "w = []")
    case True
    with Cons.prems show ?thesis by auto
  next
    case False
    with Cons show ?thesis by auto
  qed
qed

lemma tight_no_space_before_punct:
  assumes "tight p s" and "dropWhile isSpace s = y # ys" and "isPunct y"
  shows "takeWhile isSpace s = []"
proof (rule ccontr)
  assume ne: "takeWhile isSpace s \<noteq> []"
  have "s = takeWhile isSpace s @ y # ys" using assms(2) takeWhile_dropWhile_id [of isSpace s] by simp
  with assms(1) have "tight p (takeWhile isSpace s @ y # ys)" by simp
  from tight_run_punct [OF this ne] have "\<not> isPunct y" by (auto dest: set_takeWhileD)
  with assms(3) show False by simp
qed

lemma tight_no_space_after_punct:
  "tight p (y # ys) \<Longrightarrow> isPunct y \<Longrightarrow> takeWhile isSpace ys = []"
  by (cases ys) auto

lemma rule1_id:
  assumes "noLead p s" and "noTrail s"
  shows "replaceFrom (fst rule1) (snd rule1) 0 p s = s"
proof (rule replaceFrom_id [where Inv = "\<lambda>p s. noLead p s \<and> noTrail s"])
  show "\<And>p x xs. noLead p (x # xs) \<and> noTrail (x # xs) \<Longrightarrow> noLead (Some x) xs \<and> noTrail xs"
    by simp
  show "noLead p s \<and> noTrail s" using assms by simp
  fix p s c n
  assume inv: "noLead p s \<and> noTrail s" and m: "matchAt (fst rule1) p s False [] 0 = Some (c, n)"
  show "0 < n \<and> expand (snd rule1) c = take n s"
  proof (cases s)
    case Nil
    with m show ?thesis by (simp add: rule1_def)
  next
    case (Cons x xs)
    show ?thesis
    proof (cases "x = LF")
      case False
      with m Cons show ?thesis by (simp add: rule1_def)
    next
      case True
      with inv Cons LF_space obtain y ys where ys: "xs = y # ys" and "\<not> isSpace y"
        by (cases xs) (auto simp: bolp_def)
      then have "y \<noteq> LF" using LF_space by auto
      with m Cons True ys \<open>\<not> isSpace y\<close> show ?thesis by (simp add: rule1_def)
    qed
  qed
qed

lemma rule2_match:
  "matchAt (fst rule2) p s False [] 0 =
     (if bolp p \<and> s \<noteq> [] \<and> isSpace (hd s) then Some ([], length (takeWhile isSpace s)) else None)"
  by (cases s) (auto simp: rule2_def plus_def bolp_def matchAt_star_end split: option.splits)

lemma rule2_id:
  assumes "noLead p s"
  shows "replaceFrom (fst rule2) (snd rule2) 0 p s = s"
proof (rule replaceFrom_id [where Inv = noLead])
  show "\<And>p x xs. noLead p (x # xs) \<Longrightarrow> noLead (Some x) xs" by simp
  show "noLead p s" by fact
  show "\<And>p s c n. noLead p s \<Longrightarrow> matchAt (fst rule2) p s False [] 0 = Some (c, n)
                 \<Longrightarrow> 0 < n \<and> expand (snd rule2) c = take n s"
    by (auto simp: rule2_match neq_Nil_conv split: if_splits)
qed

lemma star_eol_none:
  "s \<noteq> [] \<Longrightarrow> \<not> isLineTerminator (hd s) \<Longrightarrow> noTrail s
     \<Longrightarrow> matchAt [Star isSpace, Eol] p s g c n = None"
proof (induction s arbitrary: p c n)
  case Nil
  then show ?case by simp
next
  case (Cons x xs)
  show ?case
  proof (cases "isSpace x")
    case True
    with Cons.prems have "xs \<noteq> []" "\<not> isLineTerminator (hd xs)" "noTrail xs" by auto
    from Cons.IH [OF this] Cons.prems True show ?thesis by simp
  next
    case False
    with Cons.prems show ?thesis by simp
  qed
qed

lemma rule3_id:
  assumes "noTrail s"
  shows "replaceFrom (fst rule3) (snd rule3) 0 p s = s"
proof (rule replaceFrom_id [where Inv = "\<lambda>p s. noTrail s"])
  show "\<And>p x xs. noTrail (x # xs) \<Longrightarrow> noTrail xs" by simp
  show "noTrail s" by fact
  fix p s c n
  assume inv: "noTrail s" and m: "matchAt (fst rule3) p s False [] 0 = Some (c, n)"
  show "0 < n \<and> expand (snd rule3) c = take n s"
  proof (cases s)
    case Nil
    with m show ?thesis by (simp add: rule3_def plus_def)
  next
    case (Cons x xs)
    show ?thesis
    proof (cases "isSpace x")
      case False
      with m Cons show ?thesis by (simp add: rule3_def plus_def)
    next
      case True
      with inv Cons have "xs \<noteq> []" "\<not> isLineTerminator (hd xs)" "noTrail xs" by auto
      from star_eol_none [OF this] m Cons True show ?thesis
        by (simp add: rule3_def plus_def)
    qed
  qed
qed

lemma alpha_not_space: "isAlpha c \<Longrightarrow> \<not> isSpace c"
  using word_not_space by (simp add: isWord_def)

lemma tight_after_punct:
  "tight p (u @ v) \<Longrightarrow> u \<noteq> [] \<Longrightarrow> isPunct (last u) \<Longrightarrow> takeWhile isSpace v = []"
proof (induction u arbitrary: p)
  case Nil
  then show ?case by simp
next
  case (Cons a u)
  show ?case
  proof (cases "u = []")
    case True
    with Cons.prems show ?thesis by (cases v) auto
  next
    case False
    with Cons show ?thesis by auto
  qed
qed

lemma rule4_match:
  "matchAt (fst rule4) p s False [] 0 =
     (case dropWhile isSpace s of
        [] \<Rightarrow> None
      | y # ys \<Rightarrow>
          if isPunct y
          then Some ([y], length (takeWhile isSpace s) + 1 + length (takeWhile isSpace ys))
          else None)"
proof -
  have c: "\<And>x xs q g' c' n'. isSpace x \<Longrightarrow>
      matchAt [GOpen, Cls isPunct, GClose, Star isSpace] q (x # xs) g' c' n' = None"
    using punct_not_space by auto
  have t: "\<And>q d k. matchAt [GOpen, Cls isPunct, GClose, Star isSpace] q d False [] k =
      (case d of [] \<Rightarrow> None
       | y # ys \<Rightarrow> if isPunct y then Some ([y], k + 1 + length (takeWhile isSpace ys)) else None)"
  proof -
    fix q d k
    show "matchAt [GOpen, Cls isPunct, GClose, Star isSpace] q d False [] k =
      (case d of [] \<Rightarrow> None
       | y # ys \<Rightarrow> if isPunct y then Some ([y], k + 1 + length (takeWhile isSpace ys)) else None)"
      by (cases d) (simp_all add: matchAt_star_end)
  qed
  show ?thesis
    unfolding rule4_def fst_conv
    by (simp only: matchAt_star_commit [OF c] t if_False add_0)
qed

lemma rule4_id:
  assumes "tight p s"
  shows "replaceFrom (fst rule4) (snd rule4) 0 p s = s"
proof (rule replaceFrom_id [where Inv = tight])
  show "\<And>p x xs. tight p (x # xs) \<Longrightarrow> tight (Some x) xs" by simp
  show "tight p s" by fact
  fix p s c n
  assume t: "tight p s" and m: "matchAt (fst rule4) p s False [] 0 = Some (c, n)"
  from m obtain y ys where d: "dropWhile isSpace s = y # ys" and y: "isPunct y"
    and c: "c = [y]"
    and n: "n = length (takeWhile isSpace s) + 1 + length (takeWhile isSpace ys)"
    by (auto simp: rule4_match split: list.splits if_splits)
  from tight_no_space_before_punct [OF t d y] have w: "takeWhile isSpace s = []" .
  with d have s: "s = y # ys" using takeWhile_dropWhile_id [of isSpace s] by simp
  with t y have "takeWhile isSpace ys = []" using tight_no_space_after_punct by blast
  with w n c s show "0 < n \<and> expand (snd rule4) c = take n s"
    by (simp add: rule4_def)
qed

lemma lits_fail_on_space:
  "B \<noteq> [] \<Longrightarrow> \<not> isSpace (hd B) \<Longrightarrow> isSpace x
     \<Longrightarrow> matchAt (map Lit B @ pat) q (x # xs) g c n = None"
  by (cases B) auto

lemma tighten_match:
  assumes "B \<noteq> []" and "\<not> isSpace (hd B)"
  shows "matchAt (map Lit A @ Star isSpace # map Lit B) p s False [] 0 =
     (if take (length A) s = A \<and> take (length B) (dropWhile isSpace (drop (length A) s)) = B
      then Some ([], length A + length (takeWhile isSpace (drop (length A) s)) + length B)
      else None)"
proof -
  have c: "\<And>x xs q g' c' n'. isSpace x \<Longrightarrow> matchAt (map Lit B) q (x # xs) g' c' n' = None"
    using lits_fail_on_space [OF assms, where pat = "[]"] by simp
  have e: "\<And>q t g c n. matchAt (map Lit B) q t g c n =
      (if take (length B) t = B then Some (if g then c @ B else c, n + length B) else None)"
    using matchAt_lits [where pat = "[]" and a = B] by simp
  show ?thesis
    by (simp add: matchAt_lits matchAt_star_commit [OF c] e)
qed

lemma tighten_id:
  assumes "tight p s" and "B \<noteq> []" and "\<not> isSpace (hd B)"
    and "isPunct (hd B) \<or> (A \<noteq> [] \<and> isPunct (last A))"
  shows "replaceFrom (map Lit A @ Star isSpace # map Lit B) [Txt (A @ B)] 0 p s = s"
proof (rule replaceFrom_id [where Inv = tight])
  show "\<And>p x xs. tight p (x # xs) \<Longrightarrow> tight (Some x) xs" by simp
  show "tight p s" by fact
  fix p and s :: jsstring and c n
  let ?r = "drop (length A) s"
  assume t: "tight p s"
    and m: "matchAt (map Lit A @ Star isSpace # map Lit B) p s False [] 0 = Some (c, n)"
  from m have a: "take (length A) s = A"
    and b: "take (length B) (dropWhile isSpace ?r) = B"
    and c: "c = []"
    and n: "n = length A + length (takeWhile isSpace ?r) + length B"
    by (auto simp: tighten_match [OF assms(2,3)] split: if_splits)
  from a have s: "s = A @ ?r" by (metis append_take_drop_id)
  from b assms(2) obtain ys where d: "dropWhile isSpace ?r = hd B # ys"
    by (cases "dropWhile isSpace ?r"; cases B) auto
  have w: "takeWhile isSpace ?r = []"
  proof (cases "isPunct (hd B)")
    case True
    from tight_drop [OF t, of "length A"] have "tight (prevAfter p (take (length A) s)) ?r" .
    from tight_no_space_before_punct [OF this d True] show ?thesis .
  next
    case False
    with assms(4) have "A \<noteq> []" "isPunct (last A)" by auto
    moreover from t s have "tight p (A @ ?r)" by simp
    ultimately show ?thesis using tight_after_punct by blast
  qed
  then have "dropWhile isSpace ?r = ?r" using takeWhile_dropWhile_id [of isSpace ?r] by simp
  with b have "take (length B) ?r = B" by simp
  then have "take (length A + length B) s = A @ B"
    using a by (metis append_take_drop_id take_add)
  with w n c show "0 < n \<and> expand [Txt (A @ B)] c = take n s"
    using assms(2) by simp
qed

lemma tightenRule_id:
  assumes "tight p s" and "b \<noteq> []" and "\<not> isSpace (hd (js b))"
    and "isPunct (hd (js b)) \<or> (a \<noteq> [] \<and> isPunct (last (js a)))"
  shows "replaceFrom (fst (tightenRule a b)) (snd (tightenRule a b)) 0 p s = s"
  using tighten_id [of p s "js b" "js a"] assms
  by (simp add: tightenRule_def lits_def js_def)

lemma rule13_match:
  "matchAt (fst rule13) p s False [] 0 =
     (case s of
        [] \<Rightarrow> None
      | x # xs \<Rightarrow>
          if x = 0x3A then
            (case dropWhile isSpace xs of
               [] \<Rightarrow> None
             | y # ys \<Rightarrow> if isAlpha y then Some ([y], Suc (length (takeWhile isSpace xs)) + 1) else None)
          else None)"
proof -
  have c: "\<And>x xs q g' c' n'. isSpace x \<Longrightarrow>
      matchAt [GOpen, Cls isAlpha, GClose] q (x # xs) g' c' n' = None"
    using alpha_not_space by auto
  have t: "\<And>q d k. matchAt [Cls isAlpha, GClose] q d True [] k =
      (case d of [] \<Rightarrow> None
       | y # ys \<Rightarrow> if isAlpha y then Some ([y], k + 1) else None)"
  proof -
    fix q d k
    show "matchAt [Cls isAlpha, GClose] q d True [] k =
      (case d of [] \<Rightarrow> None
       | y # ys \<Rightarrow> if isAlpha y then Some ([y], k + 1) else None)"
      by (cases d) simp_all
  qed
  show ?thesis
  proof (cases s)
    case Nil
    then show ?thesis by (simp add: rule13_def lits_def js_def)
  next
    case (Cons x xs)
    then show ?thesis
      unfolding rule13_def fst_conv
      by (simp add: lits_def js_def matchAt_star_commit [OF c] t)
  qed
qed

lemma rule13_id:
  assumes "tight p s"
  shows "replaceFrom (fst rule13) (snd rule13) 0 p s = s"
proof (rule replaceFrom_id [where Inv = tight])
  show "\<And>p x xs. tight p (x # xs) \<Longrightarrow> tight (Some x) xs" by simp
  show "tight p s" by fact
  fix p s c n
  assume t: "tight p s" and m: "matchAt (fst rule13) p s False [] 0 = Some (c, n)"
  from m obtain xs y ys where s: "s = 0x3A # xs" and d: "dropWhile isSpace xs = y # ys"
    and c: "c = [y]" and n: "n = Suc (length (takeWhile isSpace xs)) + 1"
    by (auto simp: rule13_match split: list.splits if_splits)
  have "isPunct 0x3A" by (simp add: isPunct_def js_def)
  with t s have w: "takeWhile isSpace xs = []" using tight_no_space_after_punct by blast
  with d have "xs = y # ys" using takeWhile_dropWhile_id [of isSpace xs] by simp
  with w n c s show "0 < n \<and> expand (snd rule13) c = take n s"
    by (simp add: rule13_def js_def)
qed

section \<open>What the second, third and fourth rule establish\<close>

lemma matchAt_prev:
  "Bol \<notin> set pat \<Longrightarrow> matchAt pat p s g c n = matchAt pat p' s g c n"
proof (induction pat p s g c n arbitrary: p' rule: matchAt.induct)
  case (1 prev s grp cap n)
  show ?case by simp
next
  case (2 c pat prev grp cap n)
  show ?case by simp
next
  case (3 c pat prev x xs grp cap n)
  show ?case by simp
next
  case (4 P pat prev grp cap n)
  show ?case by simp
next
  case (5 P pat prev x xs grp cap n)
  show ?case by simp
next
  case (6 P pat prev grp cap n)
  from "6.prems" have "Bol \<notin> set pat" by simp
  from "6.IH" [OF this, of p'] show ?case by simp
next
  case (7 P pat prev x xs grp cap n)
  from "7.prems" have b: "Bol \<notin> set pat" by simp
  show ?case
  proof (cases "P x")
    case True
    show ?thesis
    proof (cases "matchAt (Star P # pat) (Some x) xs grp (if grp then cap @ [x] else cap) (Suc n)")
      case None
      with True "7.IH"(2) [OF True None b, of p'] show ?thesis by simp
    next
      case (Some r)
      with True show ?thesis by simp
    qed
  next
    case False
    with "7.IH"(3) [OF False b, of p'] show ?thesis by simp
  qed
next
  case (8 pat prev s grp cap n)
  from "8.prems" have "Bol \<notin> set pat" by simp
  from "8.IH" [OF this, of p'] show ?case by simp
next
  case (9 pat prev s grp cap n)
  from "9.prems" have "Bol \<notin> set pat" by simp
  from "9.IH" [OF this, of p'] show ?case by simp
next
  case (10 pat prev s grp cap n)
  from "10.prems" show ?case by simp
next
  case (11 pat prev s grp cap n)
  from "11.prems" have b: "Bol \<notin> set pat" by simp
  show ?case
  proof (cases s)
    case Nil
    with "11.IH"(1) [OF Nil b, of p'] show ?thesis by simp
  next
    case (Cons x xs)
    show ?thesis
    proof (cases "isLineTerminator x")
      case True
      with Cons "11.IH"(2) [OF Cons True b, of p'] show ?thesis by simp
    next
      case False
      with Cons show ?thesis by simp
    qed
  qed
qed

lemma replaceFrom_prev:
  "Bol \<notin> set pat \<Longrightarrow> replaceFrom pat tmpl k p s = replaceFrom pat tmpl k p' s"
proof (cases k)
  case 0
  assume b: "Bol \<notin> set pat"
  show ?thesis
  proof (cases s)
    case Nil
    with 0 matchAt_prev [OF b, of p "[]" False "[]" 0 p'] show ?thesis by simp
  next
    case (Cons x xs)
    with 0 matchAt_prev [OF b, of p "x # xs" False "[]" 0 p'] show ?thesis by simp
  qed
next
  case (Suc j)
  then show ?thesis by (cases s) simp_all
qed

lemma noLead_drop: "noLead p s \<Longrightarrow> noLead (prevAfter p (take k s)) (drop k s)"
proof (induction k arbitrary: p s)
  case 0
  then show ?case by simp
next
  case (Suc k)
  then show ?case by (cases s) auto
qed

lemma noTrail_drop: "noTrail s \<Longrightarrow> noTrail (drop k s)"
proof (induction k arbitrary: s)
  case 0
  then show ?case by simp
next
  case (Suc k)
  then show ?case by (cases s) auto
qed

lemma noLead_nonspace: "s = [] \<or> \<not> isSpace (hd s) \<Longrightarrow> noLead q s = noLead q' s"
  by (cases s) auto

lemma replaceFrom_nomatch:
  "matchAt pat p (x # xs) False [] 0 = None
     \<Longrightarrow> replaceFrom pat tmpl 0 p (x # xs) = x # replaceFrom pat tmpl 0 (Some x) xs"
  by simp

lemma replaceFrom_match:
  assumes "matchAt pat p s False [] 0 = Some (c, n)" and "0 < n"
  shows "replaceFrom pat tmpl 0 p s =
           expand tmpl c @ replaceFrom pat tmpl 0 (prevAfter p (take n s)) (drop n s)"
proof -
  from assms(2) obtain k where k: "n = Suc k" by (cases n) auto
  from matchAt_bounds [OF assms(1)] have nl: "n \<le> length s" by simp
  with k obtain x xs where s: "s = x # xs" by (cases s) auto
  with nl k have kl: "k \<le> length xs" by simp
  from replaceFrom_skip [OF kl, of pat tmpl "Some x"] assms(1) s k show ?thesis by simp
qed

lemma rule2_noLead:
  "(bolp q \<longrightarrow> bolp p) \<or> s = [] \<or> \<not> isSpace (hd s)
     \<Longrightarrow> noLead q (replaceFrom (fst rule2) (snd rule2) 0 p s)"
proof (induction "length s" arbitrary: p q s rule: less_induct)
  case less
  show ?case
  proof (cases s)
    case Nil
    then show ?thesis by (simp add: rule2_match)
  next
    case (Cons x xs)
    show ?thesis
    proof (cases "bolp p \<and> isSpace x")
      case True
      let ?n = "length (takeWhile isSpace s)"
      from True Cons have m: "matchAt (fst rule2) p s False [] 0 = Some ([], ?n)"
        by (simp add: rule2_match)
      from True Cons have n0: "0 < ?n" by simp
      have d: "drop ?n s = dropWhile isSpace s" by (simp add: dropWhile_eq_drop)
      have "length (dropWhile isSpace s) < length s"
        using True Cons by (simp add: length_dropWhile_le le_imp_less_Suc)
      moreover have "dropWhile isSpace s = [] \<or> \<not> isSpace (hd (dropWhile isSpace s))"
        using hd_dropWhile [of isSpace s] by blast
      ultimately have "noLead q (replaceFrom (fst rule2) (snd rule2) 0
                        (prevAfter p (take ?n s)) (dropWhile isSpace s))"
        using less.hyps by blast
      with replaceFrom_match [OF m n0] d show ?thesis by (simp add: rule2_def)
    next
      case False
      with Cons have m: "matchAt (fst rule2) p s False [] 0 = None"
        by (simp add: rule2_match)
      have "noLead (Some x) (replaceFrom (fst rule2) (snd rule2) 0 (Some x) xs)"
        using less.hyps [of xs "Some x" "Some x"] Cons by simp
      moreover have "\<not> (bolp q \<and> isSpace x)" using less.prems False Cons by auto
      ultimately show ?thesis using m Cons by simp
    qed
  qed
qed

lemma star_eol:
  "matchAt [Star isSpace, Eol] p s False c n = map_option (\<lambda>k. (c, n + k)) (eolCut s)"
proof (induction s arbitrary: p c n)
  case Nil
  then show ?case by simp
next
  case (Cons x xs)
  show ?case
  proof (cases "isSpace x")
    case True
    then show ?thesis using Cons [of "Some x" c "Suc n"] by (auto split: option.splits)
  next
    case False
    then have "\<not> isLineTerminator x" using lt_is_space by blast
    with False show ?thesis by simp
  qed
qed

lemma rule3_match:
  "matchAt (fst rule3) p s False [] 0 =
     (case s of
        [] \<Rightarrow> None
      | x # xs \<Rightarrow> if isSpace x then map_option (\<lambda>k. ([], Suc k)) (eolCut xs) else None)"
  by (cases s) (simp_all add: rule3_def plus_def star_eol)

lemma eolCut_bound:
  "eolCut s = Some k \<Longrightarrow> k \<le> length s \<and> (drop k s = [] \<or> isLineTerminator (hd (drop k s)))"
  by (induction s arbitrary: k) (auto split: if_splits option.splits)

lemma eolCut_max:
  "eolCut s = Some k \<Longrightarrow> drop k s = t # r \<Longrightarrow> eolCut r = None"
  by (induction s arbitrary: k) (auto split: if_splits option.splits)

lemma eolCut_None:
  "eolCut s = None \<Longrightarrow>
     s \<noteq> [] \<and> \<not> isLineTerminator (hd s) \<and> (isSpace (hd s) \<longrightarrow> eolCut (tl s) = None)"
  by (cases s) (auto split: if_splits option.splits dest: lt_is_space)

lemma rule3_Bol: "Bol \<notin> set (fst rule3)"
  by (simp add: rule3_def plus_def)

lemma rule3_head:
  assumes "eolCut xs = None"
  shows "\<exists>y ys. xs = y # ys \<and> \<not> isLineTerminator y
           \<and> replaceFrom (fst rule3) (snd rule3) 0 p xs
               = y # replaceFrom (fst rule3) (snd rule3) 0 (Some y) ys"
proof -
  from eolCut_None [OF assms] obtain y ys where xs: "xs = y # ys" and y: "\<not> isLineTerminator y"
    and e: "isSpace y \<longrightarrow> eolCut ys = None"
    by (cases xs) auto
  then have "matchAt (fst rule3) p xs False [] 0 = None" by (simp add: rule3_match)
  with xs y show ?thesis by simp
qed

lemma rule3_post:
  "noLead p s \<Longrightarrow>
     noLead p (replaceFrom (fst rule3) (snd rule3) 0 p s)
     \<and> noTrail (replaceFrom (fst rule3) (snd rule3) 0 p s)"
proof (induction "length s" arbitrary: p s rule: less_induct)
  case less
  let ?R = "\<lambda>p s. replaceFrom (fst rule3) (snd rule3) 0 p s"
  show ?case
  proof (cases s)
    case Nil
    then show ?thesis by (simp add: rule3_match)
  next
    case (Cons x xs)
    from less.prems Cons have nb: "\<not> (bolp p \<and> isSpace x)" and nl: "noLead (Some x) xs" by auto
    show ?thesis
    proof (cases "isSpace x \<and> eolCut xs \<noteq> None")
      case True
      then obtain k where k: "eolCut xs = Some k" by auto
      with True Cons have m: "matchAt (fst rule3) p s False [] 0 = Some ([], Suc k)"
        by (simp add: rule3_match)
      from replaceFrom_match [OF m] Cons
      have r: "?R p s = ?R (prevAfter p (take (Suc k) s)) (drop k xs)"
        by (simp add: rule3_def)
      from eolCut_bound [OF k] have kl: "k \<le> length xs"
        and dl: "drop k xs = [] \<or> isLineTerminator (hd (drop k xs))" by auto
      show ?thesis
      proof (cases "drop k xs")
        case Nil
        with r show ?thesis by (simp add: rule3_match)
      next
        case (Cons t r')
        with dl have t: "isLineTerminator t" by simp
        then have st: "isSpace t" by (rule lt_is_space)
        from eolCut_max [OF k Cons] have en: "eolCut r' = None" .
        from rule3_head [OF en, of "Some t"] obtain y ys where r': "r' = y # ys"
          and y: "\<not> isLineTerminator y" and h: "?R (Some t) r' = y # ?R (Some y) ys"
          by blast
        have "matchAt (fst rule3) (prevAfter p (take (Suc k) s)) (t # r') False [] 0 = None"
          using st en by (simp add: rule3_match)
        then have "?R (prevAfter p (take (Suc k) s)) (t # r') = t # ?R (Some t) r'" by simp
        with r Cons have out: "?R p s = t # ?R (Some t) r'" by simp
        have s2: "s = take (Suc k) s @ t # r'"
          using Cons \<open>s = x # xs\<close> by (metis append_take_drop_id drop_Suc_Cons)
        have "noLead (prevAfter p (take (Suc (Suc k)) s)) (drop (Suc (Suc k)) s)"
          using noLead_drop [OF less.prems] .
        moreover have "drop (Suc (Suc k)) s = r'"
          using Cons \<open>s = x # xs\<close> by (metis drop_Suc drop_Suc_Cons list.sel(3) tl_drop)
        moreover have "take (Suc (Suc k)) s = take (Suc k) s @ [t]"
          using Cons \<open>s = x # xs\<close> kl
          by (metis drop_Suc_Cons hd_drop_conv_nth length_Cons less_Suc_eq_le list.sel(1)
                list.simps(3) not_less take_Suc_conv_app_nth take_all drop_eq_Nil)
        ultimately have "noLead (Some t) r'" by simp
        moreover have "length r' < length s"
          using s2 by (metis add_Suc_right length_Cons length_append less_add_Suc2)
        ultimately have ih: "noLead (Some t) (?R (Some t) r') \<and> noTrail (?R (Some t) r')"
          using less.hyps by blast
        from True nb have "\<not> bolp p" by simp
        with out ih h y show ?thesis by simp
      qed
    next
      case False
      with Cons have m: "matchAt (fst rule3) p s False [] 0 = None"
        by (auto simp: rule3_match)
      with Cons have out: "?R p s = x # ?R (Some x) xs" by simp
      from less.hyps [of xs "Some x"] nl Cons
      have ih: "noLead (Some x) (?R (Some x) xs) \<and> noTrail (?R (Some x) xs)" by simp
      have "isSpace x \<longrightarrow> ?R (Some x) xs \<noteq> [] \<and> \<not> isLineTerminator (hd (?R (Some x) xs))"
      proof
        assume "isSpace x"
        with False have "eolCut xs = None" by simp
        from rule3_head [OF this, of "Some x"] show
          "?R (Some x) xs \<noteq> [] \<and> \<not> isLineTerminator (hd (?R (Some x) xs))" by auto
      qed
      with out ih nb show ?thesis by simp
    qed
  qed
qed

lemma rule4_Bol: "Bol \<notin> set (fst rule4)"
  by (simp add: rule4_def)

lemma drop_append_len: "s = a @ b \<Longrightarrow> drop (length a) s = b"
  by simp

lemma length_append_less: "s = a @ b \<Longrightarrow> a \<noteq> [] \<Longrightarrow> length b < length s"
  by (cases a) simp_all

lemma rule4_none: "\<not> punctAhead s \<Longrightarrow> matchAt (fst rule4) p s False [] 0 = None"
  by (cases "dropWhile isSpace s")
     (simp_all add: rule4_match punctAhead_def del: dropWhile_eq_Nil_conv)

lemma punctAhead_space: "isSpace x \<Longrightarrow> punctAhead (x # xs) = punctAhead xs"
  by (simp add: punctAhead_def)

lemma punctAhead_punct: "isPunct x \<Longrightarrow> punctAhead (x # xs)"
  using punct_not_space by (simp add: punctAhead_def)

lemma rule4_step:
  assumes "dropWhile isSpace s = y # ys" and "isPunct y"
  shows "replaceFrom (fst rule4) (snd rule4) 0 p s
           = y # replaceFrom (fst rule4) (snd rule4) 0 p' (dropWhile isSpace ys)"
proof -
  let ?n = "length (takeWhile isSpace s) + 1 + length (takeWhile isSpace ys)"
  from assms have m: "matchAt (fst rule4) p s False [] 0 = Some ([y], ?n)"
    by (simp add: rule4_match)
  have "s = takeWhile isSpace s @ y # ys"
    using assms(1) takeWhile_dropWhile_id [of isSpace s] by simp
  then have "s = (takeWhile isSpace s @ [y] @ takeWhile isSpace ys) @ dropWhile isSpace ys"
    by simp
  from drop_append_len [OF this] have "drop ?n s = dropWhile isSpace ys"
    by (simp add: add.commute add.left_commute)
  with replaceFrom_match [OF m, of "snd rule4"] show ?thesis
    using replaceFrom_prev [OF rule4_Bol] by (simp add: rule4_def)
qed

lemma rule4_post:
  assumes "noLead p s" and "noTrail s"
    and "(q = p \<and> (\<forall>c. p = Some c \<longrightarrow> \<not> isPunct c \<and> (isSpace c \<longrightarrow> \<not> punctAhead s)))
         \<or> ((\<forall>c. q = Some c \<longrightarrow> \<not> isSpace c) \<and> (s = [] \<or> \<not> isSpace (hd s)))"
  shows "noLead q (replaceFrom (fst rule4) (snd rule4) 0 p s)
       \<and> noTrail (replaceFrom (fst rule4) (snd rule4) 0 p s)
       \<and> tight q (replaceFrom (fst rule4) (snd rule4) 0 p s)"
  using assms
proof (induction "length s" arbitrary: p q s rule: less_induct)
  case less
  let ?R = "\<lambda>p s. replaceFrom (fst rule4) (snd rule4) 0 p s"
  note C = less.prems(3)
  show ?case
  proof (cases s)
    case Nil
    then show ?thesis by (simp add: rule4_match)
  next
    case (Cons x xs)
    show ?thesis
    proof (cases "punctAhead s")
      case True
      then obtain y ys where d: "dropWhile isSpace s = y # ys" and y: "isPunct y"
        by (auto simp: punctAhead_def split: list.splits)
      let ?rest = "dropWhile isSpace ys"
      let ?n = "length (takeWhile isSpace s @ [y] @ takeWhile isSpace ys)"
      from rule4_step [OF d y, of p p] have out: "?R p s = y # ?R p ?rest" .
      have sp: "s = (takeWhile isSpace s @ [y] @ takeWhile isSpace ys) @ ?rest"
        using d takeWhile_dropWhile_id [of isSpace s] by simp
      from drop_append_len [OF this] have dr: "drop ?n s = ?rest" .
      have qn: "\<forall>c. q = Some c \<longrightarrow> \<not> isSpace c" using C True by auto
      have yn: "\<not> isSpace y" using y punct_not_space by blast
      have rn: "?rest = [] \<or> \<not> isSpace (hd ?rest)" using hd_dropWhile [of isSpace ys] by blast
      have "noLead (prevAfter p (take ?n s)) (drop ?n s)" using noLead_drop [OF less.prems(1)] .
      with dr have "noLead (prevAfter p (take ?n s)) ?rest" by simp
      with noLead_nonspace [OF rn, of "prevAfter p (take ?n s)" p]
      have nl: "noLead p ?rest" by simp
      have nt: "noTrail ?rest" using noTrail_drop [OF less.prems(2), of ?n] dr by simp
      have len: "length ?rest < length s"
        using length_append_less [OF sp] by simp
      have "noLead (Some y) (?R p ?rest) \<and> noTrail (?R p ?rest) \<and> tight (Some y) (?R p ?rest)"
        using less.hyps [OF len nl nt, of "Some y"] yn rn by simp
      with out qn yn show ?thesis by (auto split: option.splits)
    next
      case False
      then have m: "matchAt (fst rule4) p s False [] 0 = None" by (rule rule4_none)
      with Cons have out: "?R p s = x # ?R (Some x) xs" by simp
      from False Cons have xp: "\<not> isPunct x" using punctAhead_punct by blast
      from False Cons have ah: "isSpace x \<longrightarrow> \<not> punctAhead xs"
        using punctAhead_space by blast
      from less.prems Cons have nl: "noLead (Some x) xs" and nt: "noTrail xs" by auto
      have ih: "noLead (Some x) (?R (Some x) xs) \<and> noTrail (?R (Some x) xs)
                \<and> tight (Some x) (?R (Some x) xs)"
        using less.hyps [of xs "Some x" "Some x"] Cons nl nt xp ah by simp
      have a: "\<not> (bolp q \<and> isSpace x)" using C less.prems(1) Cons by auto
      have b: "isSpace x \<longrightarrow> ?R (Some x) xs \<noteq> [] \<and> \<not> isLineTerminator (hd (?R (Some x) xs))"
      proof
        assume sx: "isSpace x"
        with less.prems(2) Cons obtain z zs where xs: "xs = z # zs" and z: "\<not> isLineTerminator z"
          by (cases xs) auto
        from sx ah have "matchAt (fst rule4) (Some x) xs False [] 0 = None"
          using rule4_none by blast
        with xs have "?R (Some x) xs = z # ?R (Some z) zs" by simp
        with z show "?R (Some x) xs \<noteq> [] \<and> \<not> isLineTerminator (hd (?R (Some x) xs))" by simp
      qed
      have c: "case q of None \<Rightarrow> True
               | Some c \<Rightarrow> \<not> (isSpace c \<and> isPunct x) \<and> \<not> (isPunct c \<and> isSpace x)"
        using C xp Cons by (auto split: option.splits)
      from out ih a b c show ?thesis by simp
    qed
  qed
qed

section \<open>Shortened runs of white space\<close>

lemma SP_space: "isSpace SP"
  by (simp add: SP_def isSpace_def)

lemma SP_not_lt: "\<not> isLineTerminator SP"
  by (simp add: SP_def isLineTerminator_def)

lemma run_split:
  assumes "w \<noteq> []" and "\<forall>c \<in> set w. isSpace c" and "u = [] \<or> \<not> isSpace (hd u)"
  shows "takeWhile isSpace (w @ u) = w" and "dropWhile isSpace (w @ u) = u"
proof -
  have t: "takeWhile isSpace u = []" using assms(3) by (cases u) auto
  show "takeWhile isSpace (w @ u) = w" using assms(2) t by (simp add: takeWhile_append2)
  have d: "dropWhile isSpace u = u" using assms(3) by (cases u) auto
  show "dropWhile isSpace (w @ u) = u" using assms(2) d by (simp add: dropWhile_append2)
qed

lemma run_unique:
  assumes "w1 @ u1 = w2 @ u2"
    and "w1 \<noteq> []" "\<forall>c \<in> set w1. isSpace c" "u1 = [] \<or> \<not> isSpace (hd u1)"
    and "w2 \<noteq> []" "\<forall>c \<in> set w2. isSpace c" "u2 = [] \<or> \<not> isSpace (hd u2)"
  shows "w1 = w2 \<and> u1 = u2"
  using run_split [OF assms(2,3,4)] run_split [OF assms(5,6,7)] assms(1) by simp

lemma canon_run:
  assumes "w \<noteq> []" and "\<forall>c \<in> set w. isSpace c" and "u = [] \<or> \<not> isSpace (hd u)"
  shows "canon (w @ u) = SP # canon u"
proof -
  from assms(1) obtain x xs where w: "w = x # xs" by (cases w) auto
  have "dropWhile isSpace (xs @ u) = u"
  proof (cases "xs = []")
    case True
    then show ?thesis using assms(3) by (cases u) auto
  next
    case False
    then show ?thesis using run_split(2) [of xs u] assms(2,3) w by simp
  qed
  with w assms(2) show ?thesis by simp
qed

lemma canon_lits: "\<forall>c \<in> set a. \<not> isSpace c \<Longrightarrow> canon (a @ u) = a @ canon u"
  by (induction a) simp_all

lemma nrm_head:
  "nrm u v \<Longrightarrow> (u = [] \<longleftrightarrow> v = []) \<and> (u \<noteq> [] \<longrightarrow> isSpace (hd u) = isSpace (hd v))"
proof (induction rule: nrm.induct)
  case nrm_Nil
  then show ?case by simp
next
  case (nrm_char c u v)
  then show ?case by simp
next
  case (nrm_run w u v w')
  then show ?case using SP_space by (cases w) auto
qed

lemma nrm_start: "nrm u v \<Longrightarrow> u = [] \<or> \<not> isSpace (hd u) \<Longrightarrow> v = [] \<or> \<not> isSpace (hd v)"
  using nrm_head by blast

lemma nrm_canon: "nrm u v \<Longrightarrow> canon u = canon v"
proof (induction rule: nrm.induct)
  case nrm_Nil
  then show ?case by simp
next
  case (nrm_char c u v)
  then show ?case by simp
next
  case (nrm_run w u v w')
  have v: "v = [] \<or> \<not> isSpace (hd v)"
    using nrm_start [OF \<open>nrm u v\<close> \<open>u = [] \<or> \<not> isSpace (hd u)\<close>] .
  have "canon (w @ u) = SP # canon u" using canon_run nrm_run by blast
  moreover have "canon (w' @ v) = SP # canon v"
    using \<open>w' = w \<or> w' = [SP]\<close>
  proof
    assume "w' = w"
    then show ?thesis using canon_run [of w v] nrm_run v by simp
  next
    assume "w' = [SP]"
    then show ?thesis using canon_run [of "[SP]" v] v SP_space by simp
  qed
  ultimately show ?case using nrm_run by simp
qed

lemma nrm_lits: "\<forall>c \<in> set a. \<not> isSpace c \<Longrightarrow> nrm u v \<Longrightarrow> nrm (a @ u) (a @ v)"
  by (induction a) (auto intro: nrm_char)

lemma nrm_refl: "nrm s s"
proof (induction "length s" arbitrary: s rule: less_induct)
  case less
  show ?case
  proof (cases s)
    case Nil
    then show ?thesis by (simp add: nrm_Nil)
  next
    case (Cons x xs)
    show ?thesis
    proof (cases "isSpace x")
      case False
      with Cons less show ?thesis by (auto intro: nrm_char)
    next
      case True
      let ?w = "takeWhile isSpace s" and ?u = "dropWhile isSpace s"
      have w: "?w \<noteq> []" using True Cons by simp
      have "length ?u < length s" using True Cons by (simp add: length_dropWhile_le le_imp_less_Suc)
      then have "nrm ?u ?u" using less by blast
      moreover have "?u = [] \<or> \<not> isSpace (hd ?u)" using hd_dropWhile [of isSpace s] by blast
      moreover have "\<forall>c \<in> set ?w. isSpace c" by (auto dest: set_takeWhileD)
      ultimately have "nrm (?w @ ?u) (?w @ ?u)" using w by (intro nrm_run) auto
      then show ?thesis by simp
    qed
  qed
qed

lemma nrm_char_inv:
  assumes "nrm (c # u) v" and "\<not> isSpace c"
  shows "\<exists>v'. v = c # v' \<and> nrm u v'"
  using assms
proof (cases rule: nrm.cases)
  case (nrm_char v')
  then show ?thesis by blast
next
  case (nrm_run w u' v' w')
  then have "isSpace c" by (cases w) auto
  with assms(2) show ?thesis by simp
qed

lemma nrm_lits_inv:
  "nrm (a @ u) v \<Longrightarrow> \<forall>c \<in> set a. \<not> isSpace c \<Longrightarrow> \<exists>v'. v = a @ v' \<and> nrm u v'"
proof (induction a arbitrary: v)
  case Nil
  then show ?case by simp
next
  case (Cons c a)
  from Cons.prems obtain v1 where v: "v = c # v1" and n: "nrm (a @ u) v1"
    using nrm_char_inv [of c "a @ u" v] by auto
  from Cons.IH [OF n] Cons.prems(2) obtain v' where "v1 = a @ v'" "nrm u v'" by auto
  with v show ?case by simp
qed

lemma nrm_run_inv:
  assumes "nrm (w @ u) v" and "w \<noteq> []" and "\<forall>c \<in> set w. isSpace c"
    and "u = [] \<or> \<not> isSpace (hd u)"
  shows "\<exists>w' v'. v = w' @ v' \<and> (w' = w \<or> w' = [SP]) \<and> nrm u v'"
  using assms(1)
proof (cases rule: nrm.cases)
  case nrm_Nil
  with assms(2) show ?thesis by simp
next
  case (nrm_char c u' v')
  then have "\<not> isSpace (hd (w @ u))" by (metis list.sel(1))
  with assms(2,3) show ?thesis by (cases w) auto
next
  case (nrm_run w1 u1 v1 w1')
  from run_unique [OF nrm_run(1) assms(2,3,4) nrm_run(3,4,5)]
  have "w = w1" "u = u1" by simp_all
  with nrm_run show ?thesis by blast
qed

lemma canon_char_inv:
  assumes "canon t = c # r" and "\<not> isSpace c"
  shows "\<exists>t'. t = c # t' \<and> canon t' = r"
proof (cases t)
  case Nil
  with assms show ?thesis by simp
next
  case (Cons x xs)
  with assms SP_space show ?thesis by (auto split: if_splits)
qed

lemma canon_lits_inv:
  "canon t = a @ r \<Longrightarrow> \<forall>c \<in> set a. \<not> isSpace c \<Longrightarrow> \<exists>t'. t = a @ t' \<and> canon t' = r"
proof (induction a arbitrary: t)
  case Nil
  then show ?case by simp
next
  case (Cons c a)
  from Cons.prems obtain t1 where t: "t = c # t1" and c: "canon t1 = a @ r"
    using canon_char_inv [of t c "a @ r"] by auto
  from Cons.IH [OF c] Cons.prems(2) obtain t' where "t1 = a @ t'" "canon t' = r" by auto
  with t show ?case by simp
qed

lemma canon_run_inv:
  assumes "canon t = SP # r"
  shows "\<exists>w t'. t = w @ t' \<and> w \<noteq> [] \<and> (\<forall>c \<in> set w. isSpace c)
           \<and> (t' = [] \<or> \<not> isSpace (hd t')) \<and> canon t' = r"
proof (cases t)
  case Nil
  with assms show ?thesis by simp
next
  case (Cons x xs)
  show ?thesis
  proof (cases "isSpace x")
    case False
    with assms Cons SP_space show ?thesis by auto
  next
    case True
    let ?w = "takeWhile isSpace t" and ?u = "dropWhile isSpace t"
    have "t = ?w @ ?u" by simp
    moreover have "?w \<noteq> []" using True Cons by simp
    moreover have "\<forall>c \<in> set ?w. isSpace c" by (auto dest: set_takeWhileD)
    moreover have "?u = [] \<or> \<not> isSpace (hd ?u)" using hd_dropWhile [of isSpace t] by blast
    moreover have "canon ?u = r" using assms True Cons by simp
    ultimately show ?thesis by blast
  qed
qed

lemma noLead_append: "noLead p (u @ v) = (noLead p u \<and> noLead (prevAfter p u) v)"
  by (induction u arbitrary: p) auto

lemma noTrail_run:
  assumes "w \<noteq> []" and "\<forall>c \<in> set w. isSpace c" and "noTrail (w @ u)"
  shows "u \<noteq> [] \<and> \<not> isLineTerminator (hd u) \<and> noTrail u"
  using assms
proof (induction w)
  case Nil
  then show ?case by simp
next
  case (Cons a w)
  then show ?case by (cases "w = []") auto
qed

lemma tight_append: "tight p (u @ v) \<Longrightarrow> tight (prevAfter p u) v"
  by (induction u arbitrary: p) auto

lemma nrm_noLead: "nrm u v \<Longrightarrow> noLead p u \<Longrightarrow> noLead p v"
proof (induction arbitrary: p rule: nrm.induct)
  case nrm_Nil
  then show ?case by simp
next
  case (nrm_char c u v)
  then show ?case by simp
next
  case (nrm_run w u v w')
  have vs: "v = [] \<or> \<not> isSpace (hd v)"
    using nrm_start [OF \<open>nrm u v\<close> \<open>u = [] \<or> \<not> isSpace (hd u)\<close>] .
  from nrm_run.prems have 1: "noLead p w" and 2: "noLead (prevAfter p w) u"
    by (simp_all add: noLead_append)
  from nrm_run.IH [OF 2] have 3: "noLead (prevAfter p w) v" .
  from \<open>w' = w \<or> w' = [SP]\<close> show ?case
  proof
    assume "w' = w"
    with 1 3 show ?thesis by (simp add: noLead_append)
  next
    assume w': "w' = [SP]"
    from 1 \<open>w \<noteq> []\<close> \<open>\<forall>c \<in> set w. isSpace c\<close> have "\<not> bolp p" by (cases w) auto
    moreover have "noLead (Some SP) v" using 3 noLead_nonspace [OF vs] by blast
    ultimately show ?thesis using w' by simp
  qed
qed

lemma nrm_noTrail: "nrm u v \<Longrightarrow> noTrail u \<Longrightarrow> noTrail v"
proof (induction rule: nrm.induct)
  case nrm_Nil
  then show ?case by simp
next
  case (nrm_char c u v)
  then show ?case by simp
next
  case (nrm_run w u v w')
  from noTrail_run [OF nrm_run(1,2) nrm_run.prems]
  have u: "u \<noteq> []" "\<not> isLineTerminator (hd u)" "noTrail u" by simp_all
  with \<open>u = [] \<or> \<not> isSpace (hd u)\<close> have us: "\<not> isSpace (hd u)" by simp
  from nrm_run.IH [OF u(3)] have v: "noTrail v" .
  from nrm_head [OF \<open>nrm u v\<close>] u us have vh: "v \<noteq> []" "\<not> isSpace (hd v)" by auto
  then have vl: "\<not> isLineTerminator (hd v)" using lt_is_space by blast
  have pre: "\<And>w0. \<forall>c \<in> set w0. isSpace c \<Longrightarrow> noTrail (w0 @ u) \<Longrightarrow> noTrail (w0 @ v)"
  proof -
    fix w0 :: jsstring
    show "\<forall>c \<in> set w0. isSpace c \<Longrightarrow> noTrail (w0 @ u) \<Longrightarrow> noTrail (w0 @ v)"
    proof (induction w0)
      case Nil
      then show ?case using v by simp
    next
      case (Cons a w0)
      then show ?case using vh vl u by (cases w0) auto
    qed
  qed
  from \<open>w' = w \<or> w' = [SP]\<close> show ?case
  proof
    assume "w' = w"
    with pre [OF nrm_run(2) nrm_run.prems] show ?thesis by simp
  next
    assume "w' = [SP]"
    with v vh vl show ?thesis by simp
  qed
qed

lemma tight_restart:
  "s = [] \<or> (\<not> isSpace (hd s) \<and> \<not> isPunct (hd s)) \<Longrightarrow> tight p s \<Longrightarrow> tight q s"
  by (cases s) (auto split: option.splits)

lemma nrm_tight: "nrm u v \<Longrightarrow> tight p u \<Longrightarrow> tight p v"
proof (induction arbitrary: p rule: nrm.induct)
  case nrm_Nil
  then show ?case by simp
next
  case (nrm_char c u v)
  then show ?case by simp
next
  case (nrm_run w u v w')
  have vs: "v = [] \<or> \<not> isSpace (hd v)"
    using nrm_start [OF \<open>nrm u v\<close> \<open>u = [] \<or> \<not> isSpace (hd u)\<close>] .
  from tight_append [OF nrm_run.prems] have tu: "tight (prevAfter p w) u" .
  from nrm_run.IH [OF tu] have tv: "tight (prevAfter p w) v" .
  have lastw: "prevAfter p w = Some (last w)"
    using \<open>w \<noteq> []\<close>
  proof (induction w arbitrary: p)
    case Nil
    then show ?case by simp
  next
    case (Cons a w)
    then show ?case by (cases "w = []") auto
  qed
  have hv: "v \<noteq> [] \<longrightarrow> \<not> isPunct (hd v)"
  proof
    assume "v \<noteq> []"
    with tv lastw nrm_run(2) \<open>w \<noteq> []\<close> show "\<not> isPunct (hd v)"
      by (cases v) (auto split: option.splits)
  qed
  have pre: "\<And>w0 q. \<forall>c \<in> set w0. isSpace c \<Longrightarrow> w0 \<noteq> [] \<Longrightarrow>
      (case q of None \<Rightarrow> True | Some c \<Rightarrow> \<not> isPunct c) \<Longrightarrow> tight q (w0 @ v)"
  proof -
    fix w0 :: jsstring and q
    show "\<forall>c \<in> set w0. isSpace c \<Longrightarrow> w0 \<noteq> [] \<Longrightarrow>
      (case q of None \<Rightarrow> True | Some c \<Rightarrow> \<not> isPunct c) \<Longrightarrow> tight q (w0 @ v)"
    proof (induction w0 arbitrary: q)
      case Nil
      then show ?case by simp
    next
      case (Cons a w0)
      have a: "isSpace a" using Cons.prems by simp
      then have na: "\<not> isPunct a" using punct_not_space by blast
      show ?case
      proof (cases "w0 = []")
        case True
        have "v = [] \<or> (\<not> isSpace (hd v) \<and> \<not> isPunct (hd v))" using vs hv by blast
        from tight_restart [OF this tv] have "tight (Some a) v" .
        moreover have "v \<noteq> [] \<longrightarrow> \<not> isPunct (hd v)" by (rule hv)
        ultimately show ?thesis using True Cons.prems a na
          by (cases v) (auto split: option.splits)
      next
        case False
        from Cons.IH [of "Some a"] Cons.prems False na have "tight (Some a) (w0 @ v)" by simp
        then show ?thesis using Cons.prems a na by (auto split: option.splits)
      qed
    qed
  qed
  have pq: "case p of None \<Rightarrow> True | Some c \<Rightarrow> \<not> isPunct c"
    using nrm_run.prems nrm_run(1,2) by (cases w) (auto split: option.splits)
  from \<open>w' = w \<or> w' = [SP]\<close> show ?case
  proof
    assume "w' = w"
    with pre [OF nrm_run(2) nrm_run(1) pq] show ?thesis by simp
  next
    assume "w' = [SP]"
    with pre [of "[SP]" p] pq SP_space show ?thesis by simp
  qed
qed

section \<open>Rules that put one space between two texts\<close>

lemma segOK_D:
  assumes "segOK D" and "D s = Some (a, w, b, u)"
  shows "s = a @ w @ b @ u" "a \<noteq> []" "\<forall>c \<in> set a. \<not> isSpace c" "b \<noteq> []"
    "\<forall>c \<in> set b. \<not> isSpace c" "w \<noteq> []" "\<forall>c \<in> set w. isSpace c"
    "b @ u' = [] \<or> \<not> isSpace (hd (b @ u'))"
proof -
  from assms have *: "s = a @ w @ b @ u \<and> a \<noteq> [] \<and> (\<forall>c \<in> set a. \<not> isSpace c)
        \<and> b \<noteq> [] \<and> (\<forall>c \<in> set b. \<not> isSpace c) \<and> w \<noteq> [] \<and> (\<forall>c \<in> set w. isSpace c)"
    unfolding segOK_def by blast
  then show "s = a @ w @ b @ u" "a \<noteq> []" "\<forall>c \<in> set a. \<not> isSpace c" "b \<noteq> []"
    "\<forall>c \<in> set b. \<not> isSpace c" "w \<noteq> []" "\<forall>c \<in> set w. isSpace c" by simp_all
  from * show "b @ u' = [] \<or> \<not> isSpace (hd (b @ u'))" by (cases b) auto
qed

lemma segn_nrm: "segn D u v \<Longrightarrow> segOK D \<Longrightarrow> nrm u v"
proof (induction rule: segn.induct)
  case segn_Nil
  then show ?case by (simp add: nrm_Nil)
next
  case (segn_match s a w b u v)
  note ok = segOK_D [OF \<open>segOK D\<close> \<open>D s = Some (a, w, b, u)\<close>]
  have n: "nrm u v" using segn_match by simp
  have "nrm (b @ u) (b @ v)" using nrm_lits [OF ok(5) n] .
  from nrm_run [OF ok(6,7) ok(8) [of u] this, of "[SP]"]
  have "nrm (w @ b @ u) ([SP] @ b @ v)" by simp
  then have "nrm (a @ w @ b @ u) (a @ [SP] @ b @ v)" using nrm_lits [OF ok(3)] by blast
  with ok(1) show ?case by simp
next
  case (segn_char c u v)
  then show ?case by (auto intro: nrm_char)
next
  case (segn_run w u v w')
  then show ?case by (auto intro: nrm_run)
qed

lemma segn_then_nrm:
  "segn D u v \<Longrightarrow> segOK D \<Longrightarrow> nrm v v' \<Longrightarrow> segn D u v'"
proof (induction arbitrary: v' rule: segn.induct)
  case segn_Nil
  from \<open>nrm [] v'\<close> have "v' = []" using nrm_head by blast
  then show ?case by (simp add: segn.segn_Nil)
next
  case (segn_match s a w b u v)
  note ok = segOK_D [OF \<open>segOK D\<close> \<open>D s = Some (a, w, b, u)\<close>]
  from segn_match.prems(2) have "nrm (a @ [SP] @ b @ v) v'" by simp
  from nrm_lits_inv [OF this ok(3)] obtain v1 where v1: "v' = a @ v1"
    and n1: "nrm ([SP] @ b @ v) v1" by blast
  from nrm_run_inv [OF n1 _ _ ok(8) [of v]] SP_space obtain w' v2 where v2: "v1 = w' @ v2"
    and w': "w' = [SP] \<or> w' = [SP]" and n2: "nrm (b @ v) v2" by auto
  from nrm_lits_inv [OF n2 ok(5)] obtain v3 where v3: "v2 = b @ v3" and n3: "nrm v v3" by blast
  from segn_match.IH [OF \<open>segOK D\<close> n3] have "segn D u v3" .
  from segn.segn_match [OF \<open>D s = Some (a, w, b, u)\<close> this] v1 v2 v3 w' show ?case by simp
next
  case (segn_char c u v)
  from nrm_char_inv [OF segn_char.prems(2) segn_char(1)] obtain v1 where "v' = c # v1" "nrm v v1"
    by blast
  with segn_char show ?case by (auto intro: segn.segn_char)
next
  case (segn_run w u v w')
  have vs: "v = [] \<or> \<not> isSpace (hd v)"
    using nrm_start [OF segn_nrm [OF \<open>segn D u v\<close> \<open>segOK D\<close>] \<open>u = [] \<or> \<not> isSpace (hd u)\<close>] .
  have w1: "w' \<noteq> []" "\<forall>c \<in> set w'. isSpace c"
    using segn_run(1,2) \<open>w' = w \<or> w' = [SP]\<close> SP_space by auto
  from nrm_run_inv [OF segn_run.prems(2) w1 vs] obtain w'' v1 where v': "v' = w'' @ v1"
    and w'': "w'' = w' \<or> w'' = [SP]" and n: "nrm v v1" by blast
  from segn_run.IH [OF \<open>segOK D\<close> n] have "segn D u v1" .
  moreover from w'' \<open>w' = w \<or> w' = [SP]\<close> have "w'' = w \<or> w'' = [SP]" by auto
  ultimately show ?case
    using v' segn.segn_run [OF segn_run(1,2) \<open>u = [] \<or> \<not> isSpace (hd u)\<close>, of D v1 w'']
    by simp
qed

lemma ruleSeg_D:
  assumes "ruleSeg Inv pat tmpl D"
  shows "segOK D" "segInv D"
    "\<And>p x xs. Inv p (x # xs) \<Longrightarrow> Inv (Some x) xs"
    "\<And>s. s = [] \<or> isSpace (hd s) \<Longrightarrow> D s = None"
    "\<And>p s. Inv p s \<Longrightarrow> D s = None \<Longrightarrow> matchAt pat p s False [] 0 = None"
    "\<And>p s a w b u. Inv p s \<Longrightarrow> D s = Some (a, w, b, u) \<Longrightarrow>
        \<exists>c. matchAt pat p s False [] 0 = Some (c, length a + length w + length b)
            \<and> expand tmpl c = a @ SP # b"
proof -
  note r1 = assms [unfolded ruleSeg_def]
  note r2 = conjunct2 [OF r1]
  note r3 = conjunct2 [OF r2]
  note r4 = conjunct2 [OF r3]
  note mc = conjunct2 [OF r4, rule_format]
  show "segOK D" by (rule conjunct1 [OF r1])
  show "segInv D" by (rule conjunct1 [OF r2])
  show "\<And>p x xs. Inv p (x # xs) \<Longrightarrow> Inv (Some x) xs"
    by (rule conjunct1 [OF r3, rule_format])
  show "\<And>s. s = [] \<or> isSpace (hd s) \<Longrightarrow> D s = None"
    by (rule conjunct1 [OF r4, rule_format])
  show "\<And>p s. Inv p s \<Longrightarrow> D s = None \<Longrightarrow> matchAt pat p s False [] 0 = None"
  proof -
    fix p s
    assume i: "Inv p s" and d: "D s = None"
    from mc [OF i] show "matchAt pat p s False [] 0 = None" unfolding d by simp
  qed
  show "\<And>p s a w b u. Inv p s \<Longrightarrow> D s = Some (a, w, b, u) \<Longrightarrow>
        \<exists>c. matchAt pat p s False [] 0 = Some (c, length a + length w + length b)
            \<and> expand tmpl c = a @ SP # b"
  proof -
    fix p s a w b u
    assume i: "Inv p s" and d: "D s = Some (a, w, b, u)"
    from mc [OF i] show "\<exists>c. matchAt pat p s False [] 0 = Some (c, length a + length w + length b)
            \<and> expand tmpl c = a @ SP # b" unfolding d by simp
  qed
qed

lemma seg_step:
  assumes rs: "ruleSeg Inv pat tmpl D" and inv: "Inv p s" and d: "D s = Some (a, w, b, u)"
  shows "\<exists>p'. Inv p' u \<and> replaceFrom pat tmpl 0 p s = a @ SP # b @ replaceFrom pat tmpl 0 p' u"
proof -
  note ok = segOK_D [OF ruleSeg_D(1) [OF rs] d]
  let ?n = "length a + length w + length b"
  from ruleSeg_D(6) [OF rs inv d] obtain c
    where m: "matchAt pat p s False [] 0 = Some (c, ?n)" and e: "expand tmpl c = a @ SP # b"
    by blast
  have n0: "0 < ?n" using ok(2) by simp
  have "s = (a @ w @ b) @ u" using ok(1) by simp
  from drop_append_len [OF this] have dr: "drop ?n s = u" by (simp add: add.assoc)
  have "Inv (prevAfter p (take ?n s)) (drop ?n s)"
  proof (rule inv_drop [of Inv, OF ruleSeg_D(3) [OF rs] inv])
    show "?n \<le> length s" using ok(1) by simp
  qed
  with dr have "Inv (prevAfter p (take ?n s)) u" by simp
  moreover from replaceFrom_match [OF m n0, of tmpl] e dr
  have "replaceFrom pat tmpl 0 p s = a @ SP # b @ replaceFrom pat tmpl 0 (prevAfter p (take ?n s)) u"
    by simp
  ultimately show ?thesis by blast
qed

lemma seg_copy_run:
  assumes rs: "ruleSeg Inv pat tmpl D"
  shows "Inv p (w @ u) \<Longrightarrow> \<forall>c \<in> set w. isSpace c
     \<Longrightarrow> Inv (prevAfter p w) u
         \<and> replaceFrom pat tmpl 0 p (w @ u) = w @ replaceFrom pat tmpl 0 (prevAfter p w) u"
proof (induction w arbitrary: p)
  case Nil
  then show ?case by simp
next
  case (Cons x w)
  have "D (x # w @ u) = None" using ruleSeg_D(4) [OF rs] Cons.prems(2) by simp
  with ruleSeg_D(5) [OF rs] Cons.prems(1)
  have "matchAt pat p (x # w @ u) False [] 0 = None" by simp
  moreover have "Inv (Some x) (w @ u)" using ruleSeg_D(3) [OF rs] Cons.prems(1) by simp
  ultimately show ?case using Cons.IH [of "Some x"] Cons.prems(2) by simp
qed

lemma seg_scan:
  assumes rs: "ruleSeg Inv pat tmpl D"
  shows "Inv p s \<Longrightarrow> segn D s (replaceFrom pat tmpl 0 p s)"
proof (induction "length s" arbitrary: p s rule: less_induct)
  case less
  show ?case
  proof (cases s)
    case Nil
    have "D [] = None" using ruleSeg_D(4) [OF rs] by simp
    with ruleSeg_D(5) [OF rs] less.prems Nil have "matchAt pat p [] False [] 0 = None" by simp
    with Nil show ?thesis by (simp add: segn_Nil)
  next
    case (Cons x xs)
    show ?thesis
    proof (cases "D s")
      case (Some r)
      obtain a w b u where r: "r = (a, w, b, u)" by (cases r)
      with Some have d: "D s = Some (a, w, b, u)" by simp
      note ok = segOK_D [OF ruleSeg_D(1) [OF rs] d]
      from seg_step [OF rs less.prems d] obtain p' where i: "Inv p' u"
        and o: "replaceFrom pat tmpl 0 p s = a @ SP # b @ replaceFrom pat tmpl 0 p' u" by blast
      have "length u < length s" using ok(1,2) by (cases a) auto
      from less.hyps [OF this i] have "segn D u (replaceFrom pat tmpl 0 p' u)" .
      from segn_match [OF d this] o show ?thesis by simp
    next
      case None
      show ?thesis
      proof (cases "isSpace x")
        case False
        from ruleSeg_D(5) [OF rs less.prems None] Cons
        have o: "replaceFrom pat tmpl 0 p s = x # replaceFrom pat tmpl 0 (Some x) xs" by simp
        have "Inv (Some x) xs" using ruleSeg_D(3) [OF rs] less.prems Cons by simp
        from less.hyps [OF _ this] Cons have "segn D xs (replaceFrom pat tmpl 0 (Some x) xs)"
          by simp
        from segn_char [OF False _ this] None Cons o show ?thesis by simp
      next
        case True
        let ?w = "takeWhile isSpace s" and ?u = "dropWhile isSpace s"
        have s: "s = ?w @ ?u" by simp
        have w: "?w \<noteq> []" using True Cons by simp
        have aw: "\<forall>c \<in> set ?w. isSpace c" by (auto dest: set_takeWhileD)
        have us: "?u = [] \<or> \<not> isSpace (hd ?u)" using hd_dropWhile [of isSpace s] by blast
        from less.prems s have "Inv p (?w @ ?u)" by simp
        from seg_copy_run [OF rs this aw]
        have i: "Inv (prevAfter p ?w) ?u"
          and o: "replaceFrom pat tmpl 0 p s = ?w @ replaceFrom pat tmpl 0 (prevAfter p ?w) ?u"
          by simp_all
        have "length ?u < length s" using length_append_less [OF s w] .
        from less.hyps [OF this i] have "segn D ?u (replaceFrom pat tmpl 0 (prevAfter p ?w) ?u)" .
        from segn_run [OF w aw us this, of ?w] o show ?thesis by simp
      qed
    qed
  qed
qed

lemma seg_fixed:
  assumes rs: "ruleSeg Inv pat tmpl D"
  shows "segn D u v \<Longrightarrow> Inv p v \<Longrightarrow> replaceFrom pat tmpl 0 p v = v"
proof (induction arbitrary: p rule: segn.induct)
  case segn_Nil
  have "D [] = None" using ruleSeg_D(4) [OF rs] by simp
  with ruleSeg_D(5) [OF rs] segn_Nil have "matchAt pat p [] False [] 0 = None" by simp
  then show ?case by simp
next
  case (segn_match s a w b u v)
  note ok = segOK_D [OF ruleSeg_D(1) [OF rs] \<open>D s = Some (a, w, b, u)\<close>]
  let ?v = "a @ SP # b @ v"
  have cuv: "canon u = canon v"
    using nrm_canon [OF segn_nrm [OF \<open>segn D u v\<close> ruleSeg_D(1) [OF rs]]] .
  have vs: "b @ v = [] \<or> \<not> isSpace (hd (b @ v))" using ok(8) [of v] .
  have "canon s = a @ SP # b @ canon u"
    using ok(1) canon_lits [OF ok(3)] canon_run [OF ok(6,7) ok(8) [of u]] canon_lits [OF ok(5)]
    by simp
  moreover have "canon ?v = a @ SP # b @ canon v"
    using canon_lits [OF ok(3), of "SP # b @ v"] canon_run [of "[SP]" "b @ v"] vs SP_space
      canon_lits [OF ok(5), of v] by simp
  ultimately have "canon s = canon ?v" using cuv by simp
  with ruleSeg_D(2) [OF rs] \<open>D s = Some (a, w, b, u)\<close>
  obtain w' u' where d': "D ?v = Some (a, w', b, u')" unfolding segInv_def by blast
  note ok' = segOK_D [OF ruleSeg_D(1) [OF rs] d']
  from ok'(1) have "[SP] @ (b @ v) = w' @ (b @ u')" by simp
  from run_unique [OF this _ _ vs ok'(6,7) ok'(8) [of u']] SP_space
  have "w' = [SP]" "u' = v" by auto
  with d' have d: "D ?v = Some (a, [SP], b, v)" by simp
  from seg_step [OF rs segn_match.prems d] obtain p' where i: "Inv p' v"
    and o: "replaceFrom pat tmpl 0 p ?v = a @ SP # b @ replaceFrom pat tmpl 0 p' v" by blast
  with segn_match.IH [OF i] show ?case by simp
next
  case (segn_char c u v)
  have cuv: "canon (c # v) = canon (c # u)"
    using nrm_canon [OF segn_nrm [OF \<open>segn D u v\<close> ruleSeg_D(1) [OF rs]]] segn_char(1) by simp
  have "D (c # v) = None"
  proof (cases "D (c # v)")
    case None
    then show ?thesis .
  next
    case (Some r)
    obtain a w b u1 where "r = (a, w, b, u1)" by (cases r)
    with Some ruleSeg_D(2) [OF rs] cuv obtain w' u' where "D (c # u) = Some (a, w', b, u')"
      unfolding segInv_def by blast
    with segn_char(2) show ?thesis by simp
  qed
  from ruleSeg_D(5) [OF rs segn_char.prems this]
  have "replaceFrom pat tmpl 0 p (c # v) = c # replaceFrom pat tmpl 0 (Some c) v" by simp
  moreover have "Inv (Some c) v" using ruleSeg_D(3) [OF rs] segn_char.prems by simp
  ultimately show ?case using segn_char.IH by simp
next
  case (segn_run w u v w')
  have w1: "\<forall>c \<in> set w'. isSpace c"
    using segn_run(2) \<open>w' = w \<or> w' = [SP]\<close> SP_space by auto
  from seg_copy_run [OF rs segn_run.prems w1]
  have "Inv (prevAfter p w') v"
    and "replaceFrom pat tmpl 0 p (w' @ v) = w' @ replaceFrom pat tmpl 0 (prevAfter p w') v"
    by simp_all
  with segn_run.IH show ?case by simp
qed

section \<open>The keyword rules and the rule for type aliases\<close>

lemma kwSeg_intro:
  assumes "w \<noteq> []" and "\<forall>c \<in> set w. isSpace c" and "B \<noteq> []" and "\<not> isSpace (hd B)"
  shows "kwSeg A B (A @ w @ B @ u) = Some (A, w, B, u)"
proof -
  have "B @ u = [] \<or> \<not> isSpace (hd (B @ u))" using assms(3,4) by (cases B) auto
  from run_split [OF assms(1,2) this] show ?thesis
    using assms(1) by (simp add: kwSeg_def)
qed

lemma kwSeg_elim:
  assumes "kwSeg A B s = Some (a, w, b, u)"
  shows "a = A \<and> b = B \<and> s = A @ w @ B @ u \<and> w \<noteq> [] \<and> (\<forall>c \<in> set w. isSpace c)"
proof -
  let ?r = "drop (length A) s"
  from assms have 1: "take (length A) s = A" and 2: "takeWhile isSpace ?r \<noteq> []"
    and 3: "take (length B) (dropWhile isSpace ?r) = B"
    and 4: "a = A" "w = takeWhile isSpace ?r" "b = B" "u = drop (length B) (dropWhile isSpace ?r)"
    by (auto simp: kwSeg_def Let_def split: if_splits)
  have "s = take (length A) s @ ?r" by simp
  also have "?r = takeWhile isSpace ?r @ dropWhile isSpace ?r" by simp
  also have "dropWhile isSpace ?r
      = take (length B) (dropWhile isSpace ?r) @ drop (length B) (dropWhile isSpace ?r)" by simp
  finally have "s = A @ w @ B @ u" using 1 3 4 by simp
  moreover have "\<forall>c \<in> set w. isSpace c" using 4 by (auto dest: set_takeWhileD)
  ultimately show ?thesis using 2 4 by simp
qed

lemma kw_match:
  assumes "B \<noteq> []" and "\<not> isSpace (hd B)"
  shows "matchAt (map Lit A @ Cls isSpace # Star isSpace # map Lit B) p s False [] 0 =
     (case kwSeg A B s of
        None \<Rightarrow> None
      | Some (a, w, b, u) \<Rightarrow> Some ([], length a + length w + length b))"
proof -
  have c: "\<And>x xs q g' c' n'. isSpace x \<Longrightarrow> matchAt (map Lit B) q (x # xs) g' c' n' = None"
    using lits_fail_on_space [OF assms, where pat = "[]"] by simp
  have e: "\<And>q t g c n. matchAt (map Lit B) q t g c n =
      (if take (length B) t = B then Some (if g then c @ B else c, n + length B) else None)"
    using matchAt_lits [where pat = "[]" and a = B] by simp
  let ?r = "drop (length A) s"
  have t: "\<And>q k. matchAt (Cls isSpace # Star isSpace # map Lit B) q ?r False [] k =
      (if takeWhile isSpace ?r \<noteq> [] \<and> take (length B) (dropWhile isSpace ?r) = B
       then Some ([], k + length (takeWhile isSpace ?r) + length B) else None)"
  proof -
    fix q k
    show "matchAt (Cls isSpace # Star isSpace # map Lit B) q ?r False [] k =
      (if takeWhile isSpace ?r \<noteq> [] \<and> take (length B) (dropWhile isSpace ?r) = B
       then Some ([], k + length (takeWhile isSpace ?r) + length B) else None)"
      by (cases ?r) (simp_all add: matchAt_star_commit [OF c] e)
  qed
  show ?thesis
    by (simp add: matchAt_lits t kwSeg_def Let_def)
qed

lemma kwSeg_OK:
  assumes "A \<noteq> []" "\<forall>c \<in> set A. \<not> isSpace c" "B \<noteq> []" "\<forall>c \<in> set B. \<not> isSpace c"
  shows "segOK (kwSeg A B)"
  unfolding segOK_def using assms by (auto dest!: kwSeg_elim)

lemma kwSeg_Inv:
  assumes "A \<noteq> []" "\<forall>c \<in> set A. \<not> isSpace c" "B \<noteq> []" "\<forall>c \<in> set B. \<not> isSpace c"
  shows "segInv (kwSeg A B)"
  unfolding segInv_def
proof (intro allI impI)
  fix s t a w b u
  assume c: "canon s = canon t" and d: "kwSeg A B s = Some (a, w, b, u)"
  from kwSeg_elim [OF d] have ab: "a = A" "b = B" and s: "s = A @ w @ B @ u"
    and w: "w \<noteq> []" "\<forall>c \<in> set w. isSpace c" by simp_all
  have hb: "\<not> isSpace (hd B)" using assms(3,4) by (cases B) auto
  have bu: "\<And>z. B @ z = [] \<or> \<not> isSpace (hd (B @ z))" using assms(3) hb by (cases B) auto
  have "canon s = A @ SP # B @ canon u"
    using s canon_lits [OF assms(2)] canon_run [OF w bu] canon_lits [OF assms(4)] by simp
  with c have "canon t = A @ (SP # B @ canon u)" by simp
  from canon_lits_inv [OF this assms(2)] obtain t1 where t1: "t = A @ t1"
    and c1: "canon t1 = SP # B @ canon u" by blast
  from canon_run_inv [OF c1] obtain w' t2 where t2: "t1 = w' @ t2" and w': "w' \<noteq> []"
    "\<forall>c \<in> set w'. isSpace c" and c2: "canon t2 = B @ canon u" by blast
  from canon_lits_inv [OF c2 assms(4)] obtain u' where u': "t2 = B @ u'"
    and c3: "canon u' = canon u" by blast
  from kwSeg_intro [OF w' assms(3) hb, of A u'] t1 t2 u'
  have "kwSeg A B t = Some (A, w', B, u')" by simp
  with ab c3 show "\<exists>w' u'. kwSeg A B t = Some (a, w', b, u') \<and> canon u = canon u'" by auto
qed

lemma kwSeg_none:
  assumes "A \<noteq> []" "\<forall>c \<in> set A. \<not> isSpace c"
  shows "s = [] \<or> isSpace (hd s) \<Longrightarrow> kwSeg A B s = None"
proof -
  assume h: "s = [] \<or> isSpace (hd s)"
  have "take (length A) s \<noteq> A"
  proof
    assume e: "take (length A) s = A"
    with assms(1) have "s \<noteq> []" by auto
    with h have "isSpace (hd s)" by simp
    moreover have "hd s = hd A" using e assms(1) by (metis hd_take length_greater_0_conv)
    ultimately show False using assms by (cases A) auto
  qed
  then show ?thesis by (simp add: kwSeg_def Let_def)
qed

lemma keyword_ruleSeg:
  assumes "A \<noteq> []" "\<forall>c \<in> set A. \<not> isSpace c" "B \<noteq> []" "\<forall>c \<in> set B. \<not> isSpace c"
  shows "ruleSeg (\<lambda>p s. True) (map Lit A @ Cls isSpace # Star isSpace # map Lit B)
           [Txt (A @ SP # B)] (kwSeg A B)"
proof -
  have hb: "\<not> isSpace (hd B)" using assms(3,4) by (cases B) auto
  have mc: "\<And>p s. case kwSeg A B s of
              None \<Rightarrow> matchAt (map Lit A @ Cls isSpace # Star isSpace # map Lit B) p s False [] 0 = None
            | Some (a, w, b, u) \<Rightarrow>
                (\<exists>c. matchAt (map Lit A @ Cls isSpace # Star isSpace # map Lit B) p s False [] 0
                        = Some (c, length a + length w + length b)
                     \<and> expand [Txt (A @ SP # B)] c = a @ SP # b)"
  proof -
    fix p s
    show "case kwSeg A B s of
              None \<Rightarrow> matchAt (map Lit A @ Cls isSpace # Star isSpace # map Lit B) p s False [] 0 = None
            | Some (a, w, b, u) \<Rightarrow>
                (\<exists>c. matchAt (map Lit A @ Cls isSpace # Star isSpace # map Lit B) p s False [] 0
                        = Some (c, length a + length w + length b)
                     \<and> expand [Txt (A @ SP # B)] c = a @ SP # b)"
    proof (cases "kwSeg A B s")
      case None
      then show ?thesis by (simp add: kw_match [OF assms(3) hb])
    next
      case (Some r)
      obtain a w b u where r: "r = (a, w, b, u)" by (cases r)
      with Some kwSeg_elim [of A B s a w b u] have "a = A" "b = B" by simp_all
      with Some r show ?thesis by (simp add: kw_match [OF assms(3) hb])
    qed
  qed
  show ?thesis
    unfolding ruleSeg_def
    using kwSeg_OK [OF assms] kwSeg_Inv [OF assms] kwSeg_none [OF assms(1,2)] mc by simp
qed

lemma EQ_facts: "isPunct EQ" "\<not> isSpace EQ" "\<not> isWord EQ"
  by (simp_all add: EQ_def isPunct_def js_def isSpace_def isLineTerminator_def isWord_def isAlpha_def)

lemma word_split:
  assumes "\<forall>c \<in> set name. isWord c" and "u = [] \<or> \<not> isWord (hd u)"
  shows "takeWhile isWord (name @ u) = name" and "dropWhile isWord (name @ u) = u"
proof -
  have t: "takeWhile isWord u = []" using assms(2) by (cases u) auto
  show "takeWhile isWord (name @ u) = name" using assms(1) t by (simp add: takeWhile_append2)
  have d: "dropWhile isWord u = u" using assms(2) by (cases u) auto
  show "dropWhile isWord (name @ u) = u" using assms(1) d by (simp add: dropWhile_append2)
qed

lemma tySeg_intro:
  assumes "w \<noteq> []" and "\<forall>c \<in> set w. isSpace c" and "name \<noteq> []" and "\<forall>c \<in> set name. isWord c"
  shows "tySeg (js ''type'' @ w @ name @ EQ # u) = Some (js ''type'', w, name @ [EQ], u)"
proof -
  have "\<not> isSpace (hd name)" using assms(3,4) word_not_space by (cases name) auto
  then have "name @ EQ # u = [] \<or> \<not> isSpace (hd (name @ EQ # u))" using assms(3) by (cases name) auto
  note r = run_split [OF assms(1,2) this]
  have "EQ # u = [] \<or> \<not> isWord (hd (EQ # u))" using EQ_facts by simp
  note n = word_split [OF assms(4) this]
  have l: "length (js ''type'') = 4" by (simp add: js_def)
  show ?thesis
    unfolding tySeg_def Let_def using assms(1,3) r n l by simp
qed

lemma tySeg_elim:
  assumes "tySeg s = Some (a, w, b, u)"
  shows "\<exists>name. a = js ''type'' \<and> b = name @ [EQ] \<and> s = js ''type'' @ w @ name @ EQ # u
           \<and> w \<noteq> [] \<and> (\<forall>c \<in> set w. isSpace c) \<and> name \<noteq> [] \<and> (\<forall>c \<in> set name. isWord c)"
proof -
  let ?r = "drop 4 s"
  let ?r2 = "dropWhile isSpace ?r"
  let ?name = "takeWhile isWord ?r2"
  let ?r3 = "dropWhile isWord ?r2"
  from assms have 1: "take 4 s = js ''type''" and 2: "takeWhile isSpace ?r \<noteq> []"
    and 3: "?name \<noteq> []" and 4: "take 1 ?r3 = [EQ]"
    and 5: "a = js ''type''" "w = takeWhile isSpace ?r" "b = ?name @ [EQ]" "u = drop 1 ?r3"
    by (auto simp: tySeg_def Let_def split: if_splits)
  have "s = take 4 s @ (takeWhile isSpace ?r @ (?name @ (take 1 ?r3 @ drop 1 ?r3)))"
    by simp
  then have "s = js ''type'' @ w @ ?name @ EQ # u" unfolding 1 4 5 by simp
  moreover have "\<forall>c \<in> set w. isSpace c" using 5 by (auto dest: set_takeWhileD)
  moreover have "\<forall>c \<in> set ?name. isWord c" by (auto dest: set_takeWhileD)
  ultimately show ?thesis using 2 3 5 by blast
qed

lemma type_lits: "\<forall>c \<in> set (js ''type''). \<not> isSpace c" "js ''type'' \<noteq> []"
  by (simp_all add: js_def isSpace_def isLineTerminator_def)

lemma tySeg_OK: "segOK tySeg"
  unfolding segOK_def
proof (intro allI impI)
  fix s a w b u
  assume "tySeg s = Some (a, w, b, u)"
  from tySeg_elim [OF this] obtain name where n: "a = js ''type''" "b = name @ [EQ]"
    "s = js ''type'' @ w @ name @ EQ # u" "w \<noteq> []" "\<forall>c \<in> set w. isSpace c" "name \<noteq> []"
    "\<forall>c \<in> set name. isWord c" by blast
  then show "s = a @ w @ b @ u \<and> a \<noteq> [] \<and> (\<forall>c \<in> set a. \<not> isSpace c)
        \<and> b \<noteq> [] \<and> (\<forall>c \<in> set b. \<not> isSpace c) \<and> w \<noteq> [] \<and> (\<forall>c \<in> set w. isSpace c)"
    using type_lits EQ_facts word_not_space by auto
qed

lemma tySeg_Inv: "segInv tySeg"
  unfolding segInv_def
proof (intro allI impI)
  fix s t a w b u
  assume c: "canon s = canon t" and d: "tySeg s = Some (a, w, b, u)"
  from tySeg_elim [OF d] obtain name where n: "a = js ''type''" "b = name @ [EQ]"
    and s: "s = js ''type'' @ w @ name @ EQ # u" and w: "w \<noteq> []" "\<forall>c \<in> set w. isSpace c"
    and nm: "name \<noteq> []" "\<forall>c \<in> set name. isWord c" by blast
  have nb: "\<forall>c \<in> set (name @ [EQ]). \<not> isSpace c" using nm EQ_facts word_not_space by auto
  have bu: "\<And>z. (name @ [EQ]) @ z = [] \<or> \<not> isSpace (hd ((name @ [EQ]) @ z))"
    using nm nb by (cases name) auto
  have "s = js ''type'' @ w @ (name @ [EQ]) @ u" using s by simp
  then have "canon s = js ''type'' @ SP # (name @ [EQ]) @ canon u"
    using canon_lits [OF type_lits(1)] canon_run [OF w bu] canon_lits [OF nb] by simp
  with c have "canon t = js ''type'' @ (SP # (name @ [EQ]) @ canon u)" by simp
  from canon_lits_inv [OF this type_lits(1)] obtain t1 where t1: "t = js ''type'' @ t1"
    and c1: "canon t1 = SP # (name @ [EQ]) @ canon u" by blast
  from canon_run_inv [OF c1] obtain w' t2 where t2: "t1 = w' @ t2" and w': "w' \<noteq> []"
    "\<forall>c \<in> set w'. isSpace c" and c2: "canon t2 = (name @ [EQ]) @ canon u" by blast
  from canon_lits_inv [OF c2 nb] obtain u' where u': "t2 = (name @ [EQ]) @ u'"
    and c3: "canon u' = canon u" by blast
  from tySeg_intro [OF w' nm, of u'] t1 t2 u'
  have "tySeg t = Some (js ''type'', w', name @ [EQ], u')" by simp
  with n c3 show "\<exists>w' u'. tySeg t = Some (a, w', b, u') \<and> canon u = canon u'" by auto
qed

lemma tySeg_none: "s = [] \<or> isSpace (hd s) \<Longrightarrow> tySeg s = None"
proof -
  assume h: "s = [] \<or> isSpace (hd s)"
  have "take 4 s \<noteq> js ''type''"
  proof
    assume e: "take 4 s = js ''type''"
    then have "s \<noteq> []" by (auto simp: js_def)
    with h have "isSpace (hd s)" by simp
    moreover have "hd (take 4 s) = hd s" using \<open>s \<noteq> []\<close> by (cases s) simp_all
    then have "hd s = hd (js ''type'')" using e by simp
    ultimately show False by (simp add: js_def isSpace_def isLineTerminator_def)
  qed
  then show ?thesis by (simp add: tySeg_def Let_def)
qed

lemma lit_eq:
  "matchAt [Lit EQ] q d g c k =
     (if take 1 d = [EQ] then Some (if g then c @ [EQ] else c, k + 1) else None)"
  by (cases d) auto

lemma rule12_tail:
  "matchAt [Star isSpace, Lit EQ] q d g c k =
     (if take 1 (dropWhile isSpace d) = [EQ]
      then Some (if g then c @ takeWhile isSpace d @ [EQ] else c,
                 k + length (takeWhile isSpace d) + 1)
      else None)"
proof -
  have f: "\<And>x xs q g' c' n'. isSpace x \<Longrightarrow> matchAt [Lit EQ] q (x # xs) g' c' n' = None"
    using EQ_facts by auto
  show ?thesis
    by (simp add: matchAt_star_commit [OF f] lit_eq)
qed

lemma rule12_name:
  "matchAt (Cls isWord # Star isWord # GClose # [Star isSpace, Lit EQ]) q d True [] k =
     (if takeWhile isWord d \<noteq> [] \<and> take 1 (dropWhile isSpace (dropWhile isWord d)) = [EQ]
      then Some (takeWhile isWord d,
                 k + length (takeWhile isWord d)
                   + length (takeWhile isSpace (dropWhile isWord d)) + 1)
      else None)"
proof -
  have f: "\<And>x xs q g' c' n'. isWord x \<Longrightarrow>
      matchAt (GClose # [Star isSpace, Lit EQ]) q (x # xs) g' c' n' = None"
  proof -
    fix x xs q g' c' n'
    assume "isWord x"
    then have "\<not> isSpace x" "x \<noteq> EQ" using word_not_space EQ_facts by auto
    then show "matchAt (GClose # [Star isSpace, Lit EQ]) q (x # xs) g' c' n' = None" by simp
  qed
  show ?thesis
  proof (cases d)
    case Nil
    then show ?thesis by simp
  next
    case (Cons x xs)
    show ?thesis
    proof (cases "isWord x")
      case False
      with Cons show ?thesis by simp
    next
      case True
      with Cons show ?thesis
        by (simp add: matchAt_star_commit [OF f] rule12_tail)
    qed
  qed
qed

lemma rule12_match:
  "matchAt (fst rule12) p s False [] 0 =
     (let r = drop 4 s; w = takeWhile isSpace r; r2 = dropWhile isSpace r;
          name = takeWhile isWord r2; r3 = dropWhile isWord r2
      in if take 4 s = js ''type'' \<and> w \<noteq> [] \<and> name \<noteq> []
            \<and> take 1 (dropWhile isSpace r3) = [EQ]
         then Some (name, 4 + length w + length name + length (takeWhile isSpace r3) + 1)
         else None)"
proof -
  let ?tl = "GOpen # Cls isWord # Star isWord # GClose # [Star isSpace, Lit EQ]"
  have f: "\<And>x xs q g' c' n'. isSpace x \<Longrightarrow> matchAt ?tl q (x # xs) g' c' n' = None"
    using word_not_space by auto
  have p: "fst rule12 = map Lit (js ''type'') @ Cls isSpace # Star isSpace # ?tl"
    by (simp add: rule12_def lits_def plus_def js_def EQ_def)
  have l: "length (js ''type'') = 4" by (simp add: js_def)
  let ?r = "drop 4 s"
  have t: "\<And>q. matchAt (Cls isSpace # Star isSpace # ?tl) q ?r False [] 4 =
     (let w = takeWhile isSpace ?r; r2 = dropWhile isSpace ?r;
          name = takeWhile isWord r2; r3 = dropWhile isWord r2
      in if w \<noteq> [] \<and> name \<noteq> [] \<and> take 1 (dropWhile isSpace r3) = [EQ]
         then Some (name, 4 + length w + length name + length (takeWhile isSpace r3) + 1)
         else None)"
  proof -
    fix q
    show "matchAt (Cls isSpace # Star isSpace # ?tl) q ?r False [] 4 =
     (let w = takeWhile isSpace ?r; r2 = dropWhile isSpace ?r;
          name = takeWhile isWord r2; r3 = dropWhile isWord r2
      in if w \<noteq> [] \<and> name \<noteq> [] \<and> take 1 (dropWhile isSpace r3) = [EQ]
         then Some (name, 4 + length w + length name + length (takeWhile isSpace r3) + 1)
         else None)"
    proof (cases ?r)
      case Nil
      then show ?thesis by simp
    next
      case (Cons x xs)
      show ?thesis
      proof (cases "isSpace x")
        case False
        with Cons show ?thesis by simp
      next
        case True
        have "matchAt (Cls isSpace # Star isSpace # ?tl) q (x # xs) False [] 4
            = matchAt (Star isSpace # ?tl) (Some x) xs False [] 5"
          using True by simp
        also have "\<dots> = matchAt ?tl (prevAfter (Some x) (takeWhile isSpace xs))
                      (dropWhile isSpace xs) False [] (5 + length (takeWhile isSpace xs))"
          using matchAt_star_commit [OF f, where p = "Some x" and s = xs and g = False
              and c = "[]" and n = 5] by simp
        also have "\<dots> = matchAt (Cls isWord # Star isWord # GClose # [Star isSpace, Lit EQ])
                      (prevAfter (Some x) (takeWhile isSpace xs))
                      (dropWhile isSpace xs) True [] (5 + length (takeWhile isSpace xs))"
          by simp
        finally show ?thesis
          using True Cons by (simp add: rule12_name Let_def)
      qed
    qed
  qed
  show ?thesis
    unfolding p by (simp only: matchAt_lits l t Let_def if_False add_0 split: if_splits) auto
qed

lemma rule12_ruleSeg: "ruleSeg tight (fst rule12) (snd rule12) tySeg"
proof -
  have mc: "\<And>p s. tight p s \<Longrightarrow>
           (case tySeg s of
              None \<Rightarrow> matchAt (fst rule12) p s False [] 0 = None
            | Some (a, w, b, u) \<Rightarrow>
                (\<exists>c. matchAt (fst rule12) p s False [] 0
                        = Some (c, length a + length w + length b)
                     \<and> expand (snd rule12) c = a @ SP # b))"
  proof -
    fix p s
    assume t: "tight p s"
    let ?r = "drop 4 s"
    let ?w = "takeWhile isSpace ?r"
    let ?r2 = "dropWhile isSpace ?r"
    let ?name = "takeWhile isWord ?r2"
    let ?r3 = "dropWhile isWord ?r2"
    show "case tySeg s of
              None \<Rightarrow> matchAt (fst rule12) p s False [] 0 = None
            | Some (a, w, b, u) \<Rightarrow>
                (\<exists>c. matchAt (fst rule12) p s False [] 0
                        = Some (c, length a + length w + length b)
                     \<and> expand (snd rule12) c = a @ SP # b)"
    proof (cases "tySeg s")
      case None
      have "matchAt (fst rule12) p s False [] 0 = None"
      proof (rule ccontr)
        assume "matchAt (fst rule12) p s False [] 0 \<noteq> None"
        then have a: "take 4 s = js ''type''" and b: "?w \<noteq> []" and c: "?name \<noteq> []"
          and d: "take 1 (dropWhile isSpace ?r3) = [EQ]"
          by (auto simp: rule12_match Let_def split: if_splits)
        from d obtain ys where dd: "dropWhile isSpace ?r3 = EQ # ys"
          by (cases "dropWhile isSpace ?r3") auto
        have "s = (take 4 s @ ?w @ ?name) @ ?r3" by simp
        from drop_append_len [OF this]
        have "?r3 = drop (length (take 4 s @ ?w @ ?name)) s" by simp
        with tight_drop [OF t, of "length (take 4 s @ ?w @ ?name)"]
        have "tight (prevAfter p (take (length (take 4 s @ ?w @ ?name)) s)) ?r3" by simp
        from tight_no_space_before_punct [OF this dd EQ_facts(1)]
        have "takeWhile isSpace ?r3 = []" .
        then have "dropWhile isSpace ?r3 = ?r3"
          using takeWhile_dropWhile_id [of isSpace ?r3] by simp
        with d have "take 1 ?r3 = [EQ]" by simp
        with a b c have "tySeg s \<noteq> None" by (simp add: tySeg_def Let_def)
        with None show False by simp
      qed
      with None show ?thesis by simp
    next
      case (Some r)
      obtain a w b u where r: "r = (a, w, b, u)" by (cases r)
      with Some have d: "tySeg s = Some (a, w, b, u)" by simp
      from tySeg_elim [OF d] obtain name where n: "a = js ''type''" "b = name @ [EQ]"
        and s: "s = js ''type'' @ w @ name @ EQ # u" and w: "w \<noteq> []" "\<forall>c \<in> set w. isSpace c"
        and nm: "name \<noteq> []" "\<forall>c \<in> set name. isWord c" by blast
      have "\<not> isSpace (hd name)" using nm word_not_space by (cases name) auto
      then have "name @ EQ # u = [] \<or> \<not> isSpace (hd (name @ EQ # u))"
        using nm(1) by (cases name) auto
      note rs = run_split [OF w this]
      have "EQ # u = [] \<or> \<not> isWord (hd (EQ # u))" using EQ_facts by simp
      note ws = word_split [OF nm(2) this]
      have l: "length (js ''type'') = 4" by (simp add: js_def)
      have dr: "drop 4 s = w @ name @ EQ # u" using s l by simp
      have tk: "take 4 s = js ''type''" using s l by simp
      have "matchAt (fst rule12) p s False [] 0
              = Some (name, 4 + length w + length name + 0 + 1)"
        unfolding rule12_match Let_def dr tk rs ws using w(1) nm(1) EQ_facts by simp
      moreover have "expand (snd rule12) name = a @ SP # b"
        using n by (simp add: rule12_def js_def SP_def EQ_def)
      ultimately show ?thesis using Some r n l by simp
    qed
  qed
  show ?thesis
    unfolding ruleSeg_def
    using tySeg_OK tySeg_Inv tySeg_none mc by simp
qed

lemma keywordRule_ruleSeg:
  assumes "a \<noteq> []" "\<forall>c \<in> set (js a). \<not> isSpace c" "b \<noteq> []" "\<forall>c \<in> set (js b). \<not> isSpace c"
  shows "ruleSeg (\<lambda>p s. True) (fst (keywordRule a b)) (snd (keywordRule a b))
           (kwSeg (js a) (js b))"
proof -
  have "js a \<noteq> []" "js b \<noteq> []" using assms(1,3) by (simp_all add: js_def)
  from keyword_ruleSeg [OF this(1) assms(2) this(2) assms(4)] show ?thesis
    by (simp add: keywordRule_def lits_def plus_def js_def SP_def)
qed

lemma kw_export: "''export'' \<noteq> []" "\<forall>c \<in> set (js ''export''). \<not> isSpace c"
  by (simp_all add: js_def isSpace_def isLineTerminator_def)

lemma kw_type: "''type'' \<noteq> []" "\<forall>c \<in> set (js ''type''). \<not> isSpace c"
  by (simp_all add: js_def isSpace_def isLineTerminator_def)

lemma kw_const: "''const'' \<noteq> []" "\<forall>c \<in> set (js ''const''). \<not> isSpace c"
  by (simp_all add: js_def isSpace_def isLineTerminator_def)

lemma kw_enum: "''enum'' \<noteq> []" "\<forall>c \<in> set (js ''enum''). \<not> isSpace c"
  by (simp_all add: js_def isSpace_def isLineTerminator_def)

lemma kw_interface: "''interface'' \<noteq> []" "\<forall>c \<in> set (js ''interface''). \<not> isSpace c"
  by (simp_all add: js_def isSpace_def isLineTerminator_def)

section \<open>The rule pass\<close>

text \<open>
  The result of the rule pass has no leading and no trailing white space, is tight, and
  is left unchanged by a second rule pass.
\<close>

lemma noTrail_last: "noTrail s \<Longrightarrow> s \<noteq> [] \<Longrightarrow> \<not> isSpace (last s)"
  by (induction s) (auto split: if_splits)

lemma tighten_conds:
  "''{'' \<noteq> []" "\<not> isSpace (hd (js ''{''))" "isPunct (hd (js ''{''))"
  "''from'' \<noteq> []" "\<not> isSpace (hd (js ''from''))" "''}'' \<noteq> []" "isPunct (last (js ''}''))"
  by (simp_all add: js_def isSpace_def isLineTerminator_def isPunct_def)

lemma nrm_segn: "nrm u v \<Longrightarrow> segn (\<lambda>s. None) u v"
proof (induction rule: nrm.induct)
  case nrm_Nil
  then show ?case by (rule segn.segn_Nil)
next
  case (nrm_char c u v)
  then show ?case by (intro segn.segn_char) simp_all
next
  case (nrm_run w u v w')
  then show ?case by (intro segn.segn_run) simp_all
qed

lemma nrm_trans:
  assumes "nrm u v" and "nrm v x"
  shows "nrm u x"
proof -
  have ok: "segOK (\<lambda>s. None)" by (simp add: segOK_def)
  from segn_then_nrm [OF nrm_segn [OF assms(1)] ok assms(2)] ok show ?thesis by (rule segn_nrm)
qed

lemma afterRules_result:
  fixes s :: jsstring
  defines "r \<equiv> afterRules s"
  shows "noLead None r \<and> noTrail r \<and> tight None r \<and> afterRules r = r"
    and "\<exists>u. segn (kwSeg (js ''export'') (js ''type'')) u r"
    and "\<exists>u. segn (kwSeg (js ''export'') (js ''const'')) u r"
    and "\<exists>u. segn (kwSeg (js ''export'') (js ''enum'')) u r"
    and "\<exists>u. segn (kwSeg (js ''export'') (js ''interface'')) u r"
    and "\<exists>u. segn tySeg u r"
    and "nrm (replace (replace (replace (replace s rule1) rule2) rule3) rule4) r"
proof -
  let ?ap = "\<lambda>c rule. replaceFrom (fst rule) (snd rule) 0 None c"
  let ?k8 = "keywordRule ''export'' ''type''"
  let ?k9 = "keywordRule ''export'' ''const''"
  let ?k10 = "keywordRule ''export'' ''enum''"
  let ?k11 = "keywordRule ''export'' ''interface''"
  let ?D8 = "kwSeg (js ''export'') (js ''type'')"
  let ?D9 = "kwSeg (js ''export'') (js ''const'')"
  let ?D10 = "kwSeg (js ''export'') (js ''enum'')"
  let ?D11 = "kwSeg (js ''export'') (js ''interface'')"
  define s1 where "s1 = ?ap s rule1"
  define s2 where "s2 = ?ap s1 rule2"
  define s3 where "s3 = ?ap s2 rule3"
  define s4 where "s4 = ?ap s3 rule4"
  define s8 where "s8 = ?ap s4 ?k8"
  define s9 where "s9 = ?ap s8 ?k9"
  define s10 where "s10 = ?ap s9 ?k10"
  define s11 where "s11 = ?ap s10 ?k11"
  define s12 where "s12 = ?ap s11 rule12"
  note rs8 = keywordRule_ruleSeg [OF kw_export kw_type]
  note rs9 = keywordRule_ruleSeg [OF kw_export kw_const]
  note rs10 = keywordRule_ruleSeg [OF kw_export kw_enum]
  note rs11 = keywordRule_ruleSeg [OF kw_export kw_interface]
  note rs12 = rule12_ruleSeg
  have i2: "noLead None s2" unfolding s2_def by (rule rule2_noLead) simp
  have i3: "noLead None s3 \<and> noTrail s3" unfolding s3_def by (rule rule3_post [OF i2])
  have i4: "noLead None s4 \<and> noTrail s4 \<and> tight None s4"
    unfolding s4_def using rule4_post [of None s3 None] i3 by simp
  then have t4: "tight None s4" by simp
  have e5: "?ap s4 (tightenRule ''import'' ''{'') = s4"
    using tightenRule_id [OF t4, of "''{''" "''import''"] tighten_conds by simp
  have e6: "?ap s4 (tightenRule ''}'' ''from'') = s4"
    using tightenRule_id [OF t4, of "''from''" "''}''"] tighten_conds by simp
  have e7: "?ap s4 (tightenRule ''export'' ''{'') = s4"
    using tightenRule_id [OF t4, of "''{''" "''export''"] tighten_conds by simp
  have g8: "segn ?D8 s4 s8" unfolding s8_def by (rule seg_scan [OF rs8]) simp
  have g9: "segn ?D9 s8 s9" unfolding s9_def by (rule seg_scan [OF rs9]) simp
  have g10: "segn ?D10 s9 s10" unfolding s10_def by (rule seg_scan [OF rs10]) simp
  have g11: "segn ?D11 s10 s11" unfolding s11_def by (rule seg_scan [OF rs11]) simp
  note n8 = segn_nrm [OF g8 ruleSeg_D(1) [OF rs8]]
  note n9 = segn_nrm [OF g9 ruleSeg_D(1) [OF rs9]]
  note n10 = segn_nrm [OF g10 ruleSeg_D(1) [OF rs10]]
  note n11 = segn_nrm [OF g11 ruleSeg_D(1) [OF rs11]]
  have t11: "tight None s11"
    using nrm_tight [OF n11 nrm_tight [OF n10 nrm_tight [OF n9 nrm_tight [OF n8 t4]]]] .
  have g12: "segn tySeg s11 s12" unfolding s12_def by (rule seg_scan [OF rs12 t11])
  note n12 = segn_nrm [OF g12 ruleSeg_D(1) [OF rs12]]
  have t12: "tight None s12" using nrm_tight [OF n12 t11] .
  have l12: "noLead None s12"
    using i4 nrm_noLead [OF n12 nrm_noLead [OF n11 nrm_noLead [OF n10 nrm_noLead
           [OF n9 nrm_noLead [OF n8]]]]] by simp
  have r12: "noTrail s12"
    using i4 nrm_noTrail [OF n12 nrm_noTrail [OF n11 nrm_noTrail [OF n10 nrm_noTrail
           [OF n9 nrm_noTrail [OF n8]]]]] by simp
  have e13: "?ap s12 rule13 = s12" by (rule rule13_id [OF t12])
  have r: "r = s12"
    unfolding r_def afterRules_def compressionRules_eq applyRule_def replace_def
    using e5 e6 e7 e13
    by (simp add: s1_def s2_def s3_def s4_def s8_def s9_def s10_def s11_def s12_def)
  have h8: "segn ?D8 s4 s12"
    using segn_then_nrm [OF segn_then_nrm [OF segn_then_nrm [OF segn_then_nrm [OF g8
      ruleSeg_D(1) [OF rs8] n9] ruleSeg_D(1) [OF rs8] n10] ruleSeg_D(1) [OF rs8] n11]
      ruleSeg_D(1) [OF rs8] n12] .
  have h9: "segn ?D9 s8 s12"
    using segn_then_nrm [OF segn_then_nrm [OF segn_then_nrm [OF g9
      ruleSeg_D(1) [OF rs9] n10] ruleSeg_D(1) [OF rs9] n11] ruleSeg_D(1) [OF rs9] n12] .
  have h10: "segn ?D10 s9 s12"
    using segn_then_nrm [OF segn_then_nrm [OF g10
      ruleSeg_D(1) [OF rs10] n11] ruleSeg_D(1) [OF rs10] n12] .
  have h11: "segn ?D11 s10 s12"
    using segn_then_nrm [OF g11 ruleSeg_D(1) [OF rs11] n12] .
  have f1: "?ap s12 rule1 = s12" by (rule rule1_id [OF l12 r12])
  have f2: "?ap s12 rule2 = s12" by (rule rule2_id [OF l12])
  have f3: "?ap s12 rule3 = s12" by (rule rule3_id [OF r12])
  have f4: "?ap s12 rule4 = s12" by (rule rule4_id [OF t12])
  have f5: "?ap s12 (tightenRule ''import'' ''{'') = s12"
    using tightenRule_id [OF t12, of "''{''" "''import''"] tighten_conds by simp
  have f6: "?ap s12 (tightenRule ''}'' ''from'') = s12"
    using tightenRule_id [OF t12, of "''from''" "''}''"] tighten_conds by simp
  have f7: "?ap s12 (tightenRule ''export'' ''{'') = s12"
    using tightenRule_id [OF t12, of "''{''" "''export''"] tighten_conds by simp
  have f8: "?ap s12 ?k8 = s12" by (rule seg_fixed [OF rs8 h8]) simp
  have f9: "?ap s12 ?k9 = s12" by (rule seg_fixed [OF rs9 h9]) simp
  have f10: "?ap s12 ?k10 = s12" by (rule seg_fixed [OF rs10 h10]) simp
  have f11: "?ap s12 ?k11 = s12" by (rule seg_fixed [OF rs11 h11]) simp
  have f12: "?ap s12 rule12 = s12" by (rule seg_fixed [OF rs12 g12 t12])
  have "afterRules s12 = s12"
    unfolding afterRules_def compressionRules_eq applyRule_def replace_def
    by (simp add: f1 f2 f3 f4 f5 f6 f7 f8 f9 f10 f11 f12 e13)
  with l12 r12 t12 r show "noLead None r \<and> noTrail r \<and> tight None r \<and> afterRules r = r"
    by simp
  from h8 r show "\<exists>u. segn (kwSeg (js ''export'') (js ''type'')) u r" by auto
  from h9 r show "\<exists>u. segn (kwSeg (js ''export'') (js ''const'')) u r" by auto
  from h10 r show "\<exists>u. segn (kwSeg (js ''export'') (js ''enum'')) u r" by auto
  from h11 r show "\<exists>u. segn (kwSeg (js ''export'') (js ''interface'')) u r" by auto
  from g12 r show "\<exists>u. segn tySeg u r" by auto
  have "nrm s4 s12" using nrm_trans [OF nrm_trans [OF nrm_trans [OF nrm_trans [OF n8 n9] n10] n11] n12] .
  with r show "nrm (replace (replace (replace (replace s rule1) rule2) rule3) rule4) r"
    by (simp add: replace_def s1_def s2_def s3_def s4_def)
qed

text \<open>
  No rule puts a line feed into a text that has none.
\<close>

lemma matchAt_cap:
  "matchAt pat p s g cap n = Some (cap', n') \<Longrightarrow> c \<notin> set cap \<Longrightarrow> c \<notin> set s \<Longrightarrow> c \<notin> set cap'"
proof (induction pat p s g cap n arbitrary: cap' n' rule: matchAt.induct)
qed (auto split: if_splits option.splits list.splits)

lemma expand_avoid:
  "c \<notin> set cap \<Longrightarrow> \<forall>t. Txt t \<in> set tmpl \<longrightarrow> c \<notin> set t \<Longrightarrow> c \<notin> set (expand tmpl cap)"
proof (induction tmpl)
  case Nil
  then show ?case by simp
next
  case (Cons a tmpl)
  then show ?case by (cases a) auto
qed

lemma replaceFrom_avoid:
  "c \<notin> set s \<Longrightarrow> \<forall>t. Txt t \<in> set tmpl \<longrightarrow> c \<notin> set t
     \<Longrightarrow> c \<notin> set (replaceFrom pat tmpl k p s)"
proof (induction pat tmpl k p s rule: replaceFrom.induct)
  case (1 pat tmpl k prev x xs)
  then show ?case by simp
next
  case (2 pat tmpl k prev)
  then show ?case by simp
next
  case (3 pat tmpl prev)
  show ?case
  proof (cases "matchAt pat prev [] False [] 0")
    case None
    then show ?thesis by simp
  next
    case (Some r)
    obtain cap n where r: "r = (cap, n)" by (cases r)
    from matchAt_cap [OF Some [unfolded r], of c] have "c \<notin> set cap" by simp
    from expand_avoid [OF this "3.prems"(2)] Some r show ?thesis by simp
  qed
next
  case (4 pat tmpl prev x xs)
  from "4.prems" have cx: "c \<noteq> x" and cxs: "c \<notin> set xs" by auto
  show ?case
  proof (cases "matchAt pat prev (x # xs) False [] 0")
    case None
    from "4.IH"(1) [OF None cxs "4.prems"(2)] None cx show ?thesis by simp
  next
    case (Some r)
    obtain cap n where r: "r = (cap, n)" by (cases r)
    from matchAt_cap [OF Some [unfolded r], of c] "4.prems"(1) have "c \<notin> set cap" by simp
    from expand_avoid [OF this "4.prems"(2)] have e: "c \<notin> set (expand tmpl cap)" .
    show ?thesis
    proof (cases n)
      case 0
      from "4.IH"(2) [OF Some r [symmetric] 0 cxs "4.prems"(2)] Some r 0 cx e
      show ?thesis by simp
    next
      case (Suc k)
      from "4.IH"(3) [OF Some r [symmetric] Suc cxs "4.prems"(2)] Some r Suc e
      show ?thesis by simp
    qed
  qed
qed

lemma rule1_no_LF: "LF \<notin> set s \<Longrightarrow> replaceFrom (fst rule1) (snd rule1) 0 p s = s"
  by (induction s arbitrary: p) (auto simp: rule1_def)

lemma applyRule_no_LF:
  assumes "rule \<in> set compressionRules" and "LF \<notin> set content"
  shows "LF \<notin> set (applyRule content rule)"
proof (cases "rule = rule1")
  case True
  with rule1_no_LF [OF assms(2)] assms(2) show ?thesis
    by (simp add: applyRule_def replace_def)
next
  case False
  with assms(1) have "\<forall>t. Txt t \<in> set (snd rule) \<longrightarrow> LF \<notin> set t"
    unfolding compressionRules_eq
    by (auto simp: rule2_def rule3_def rule4_def tightenRule_def keywordRule_def rule12_def
          rule13_def js_def LF_def)
  from replaceFrom_avoid [OF assms(2) this] show ?thesis
    by (simp add: applyRule_def replace_def)
qed

lemma foldl_no_LF:
  "set rules \<subseteq> set compressionRules \<Longrightarrow> LF \<notin> set content
     \<Longrightarrow> LF \<notin> set (foldl applyRule content rules)"
proof (induction rules arbitrary: content)
  case Nil
  then show ?case by simp
next
  case (Cons a rules)
  from Cons.prems have "LF \<notin> set (applyRule content a)" by (intro applyRule_no_LF) auto
  from Cons.IH [OF _ this] Cons.prems(1) show ?case by simp
qed

lemma afterRules_no_LF: "LF \<notin> set content \<Longrightarrow> LF \<notin> set (afterRules content)"
  unfolding afterRules_def by (rule foldl_no_LF) simp_all

section \<open>Joining the lines of a rule pass result\<close>

text \<open>
  The line step only removes the line feeds of a rule pass result.  The joined text is
  again left unchanged by every rule if no keyword and no name is put together from two
  lines, and also if no keyword in it is followed by white space other than one space.
\<close>

lemma dropLF_simps [simp]:
  "dropLF [] = []"
  "dropLF (LF # xs) = dropLF xs"
  "x \<noteq> LF \<Longrightarrow> dropLF (x # xs) = x # dropLF xs"
  "dropLF (u @ v) = dropLF u @ dropLF v"
  by (simp_all add: dropLF_def)

lemma dropLF_id: "LF \<notin> set s \<Longrightarrow> dropLF s = s"
  by (induction s) (auto simp: dropLF_def)

lemma dropLF_nonspace: "\<forall>c \<in> set s. \<not> isSpace c \<Longrightarrow> dropLF s = s"
  using LF_space(1) by (intro dropLF_id) auto

lemma dropLF_no_LF: "LF \<notin> set (dropLF s)"
  by (simp add: dropLF_def)

lemma joints_append: "joints p (u @ v) \<Longrightarrow> joints (prevAfter p u) v"
  by (induction u arbitrary: p) auto

lemma joints_LF:
  assumes "joints p (LF # xs)"
  shows "xs \<noteq> []" "\<not> isSpace (hd xs)" "\<not> isPunct (hd xs)" "hd xs \<noteq> LF" "joints (Some LF) xs"
    "\<exists>c. p = Some c \<and> \<not> isSpace c \<and> \<not> isPunct c \<and> \<not> (isWord c \<and> isWord (hd xs))"
  using assms LF_space(1) by (auto split: option.splits)

lemma cleanBreaks_append: "cleanBreaks p (u @ v) \<Longrightarrow> cleanBreaks (prevAfter p u) v"
  by (induction u arbitrary: p) auto

lemma cleanBreaks_LF:
  assumes "cleanBreaks p (LF # xs)"
  shows "xs \<noteq> []" "\<not> isSpace (hd xs)" "\<not> isPunct (hd xs)" "hd xs \<noteq> LF"
    "cleanBreaks (Some LF) xs" "\<exists>c. p = Some c \<and> \<not> isSpace c \<and> \<not> isPunct c"
  using assms LF_space(1) by (auto split: option.splits)

lemma joints_clean: "joints p s \<Longrightarrow> cleanBreaks p s"
  by (induction s arbitrary: p) (auto split: option.splits)

lemma wordBreak_no_LF: "LF \<notin> set s \<Longrightarrow> \<not> wordBreak p s"
  by (induction s arbitrary: p) auto

text \<open>joints from the invariants of the rule pass\<close>

lemma cleanBreaks_intro:
  assumes "noLead p s" and "noTrail s" and "tight p s"
    and "\<forall>c. p = Some c \<longrightarrow> isSpace c \<longrightarrow> s \<noteq> [] \<and> \<not> isLineTerminator (hd s)"
  shows "cleanBreaks p s"
  using assms
proof (induction s arbitrary: p)
  case Nil
  then show ?case by simp
next
  case (Cons x xs)
  have tl: "cleanBreaks (Some x) xs"
  proof (rule Cons.IH)
    from Cons.prems show "noLead (Some x) xs" "noTrail xs" "tight (Some x) xs"
      by simp_all
    from Cons.prems(2) show "\<forall>c. Some x = Some c \<longrightarrow> isSpace c \<longrightarrow> xs \<noteq> [] \<and> \<not> isLineTerminator (hd xs)"
      by simp
  qed
  show ?case
  proof (cases "x = LF")
    case False
    with tl show ?thesis by simp
  next
    case True
    from Cons.prems(1) True LF_space have nb: "\<not> bolp p" by simp
    then obtain c where p: "p = Some c" and nlt: "\<not> isLineTerminator c"
      by (cases p) (auto simp: bolp_def)
    from Cons.prems(4) p True LF_space have c1: "\<not> isSpace c" by auto
    from Cons.prems(3) p True LF_space have c2: "\<not> isPunct c" by simp
    from Cons.prems(2) True LF_space have x1: "xs \<noteq> []" by simp
    then obtain y ys where xs: "xs = y # ys" by (cases xs) auto
    from Cons.prems(1) True LF_space xs have y1: "\<not> isSpace y" by (simp add: bolp_def)
    from Cons.prems(3) True LF_space xs have y2: "\<not> isPunct y" by simp
    from tl True p c1 c2 xs y1 y2 show ?thesis by simp
  qed
qed

lemma joints_intro:
  assumes "noLead p s" and "noTrail s" and "tight p s" and "\<not> wordBreak p s"
    and "\<forall>c. p = Some c \<longrightarrow> isSpace c \<longrightarrow> s \<noteq> [] \<and> \<not> isLineTerminator (hd s)"
  shows "joints p s"
  using assms
proof (induction s arbitrary: p)
  case Nil
  then show ?case by simp
next
  case (Cons x xs)
  have tl: "joints (Some x) xs"
  proof (rule Cons.IH)
    from Cons.prems show "noLead (Some x) xs" "noTrail xs" "tight (Some x) xs"
      "\<not> wordBreak (Some x) xs" by simp_all
    from Cons.prems(2) show "\<forall>c. Some x = Some c \<longrightarrow> isSpace c \<longrightarrow> xs \<noteq> [] \<and> \<not> isLineTerminator (hd xs)"
      by simp
  qed
  show ?case
  proof (cases "x = LF")
    case False
    with tl show ?thesis by simp
  next
    case True
    from Cons.prems(1) True LF_space have nb: "\<not> bolp p" by simp
    then obtain c where p: "p = Some c" and nlt: "\<not> isLineTerminator c"
      by (cases p) (auto simp: bolp_def)
    from Cons.prems(5) p True LF_space have c1: "\<not> isSpace c" by auto
    from Cons.prems(3) p True LF_space have c2: "\<not> isPunct c" by simp
    from Cons.prems(2) True LF_space have x1: "xs \<noteq> []" by simp
    then obtain y ys where xs: "xs = y # ys" by (cases xs) auto
    from Cons.prems(1) True LF_space xs have y1: "\<not> isSpace y" by (simp add: bolp_def)
    from Cons.prems(3) True LF_space xs have y2: "\<not> isPunct y" by simp
    from Cons.prems(4) True p xs have y3: "\<not> (isWord c \<and> isWord y)" by simp
    from tl True p c1 c2 xs y1 y2 y3 show ?thesis by simp
  qed
qed

lemma dropLF_noLead:
  "cleanBreaks p s \<Longrightarrow> noLead p s \<Longrightarrow> q = p \<or> s = [] \<or> \<not> isSpace (hd s) \<Longrightarrow> noLead q (dropLF s)"
proof (induction s arbitrary: p q)
  case Nil
  then show ?case by simp
next
  case (Cons x xs)
  show ?case
  proof (cases "x = LF")
    case True
    note j = cleanBreaks_LF [OF Cons.prems(1) [unfolded True]]
    from Cons.prems(2) have "noLead (Some LF) xs" using True by simp
    from Cons.IH [OF j(5) this, of q] j(1,2) show ?thesis using True by simp
  next
    case False
    from Cons.prems(1,2) have "cleanBreaks (Some x) xs" "noLead (Some x) xs" by simp_all
    from Cons.IH [OF this, of "Some x"] have t: "noLead (Some x) (dropLF xs)" by simp
    from Cons.prems(2,3) have "\<not> (bolp q \<and> isSpace x)" by auto
    with t False show ?thesis by simp
  qed
qed

lemma dropLF_noTrail: "noTrail s \<Longrightarrow> noTrail (dropLF s)"
proof (induction s)
  case Nil
  then show ?case by simp
next
  case (Cons x xs)
  show ?case
  proof (cases "x = LF")
    case True
    with Cons show ?thesis by simp
  next
    case False
    from Cons have t: "noTrail (dropLF xs)" by simp
    have "isSpace x \<longrightarrow> dropLF xs \<noteq> [] \<and> \<not> isLineTerminator (hd (dropLF xs))"
    proof
      assume "isSpace x"
      with Cons.prems obtain y ys where xs: "xs = y # ys" and y: "\<not> isLineTerminator y"
        by (cases xs) auto
      from y LF_space(2) have "y \<noteq> LF" by auto
      with xs y show "dropLF xs \<noteq> [] \<and> \<not> isLineTerminator (hd (dropLF xs))" by simp
    qed
    with t False show ?thesis by simp
  qed
qed

lemma dropLF_tight:
  "cleanBreaks p s \<Longrightarrow> tight p s \<Longrightarrow> q = p \<or> s = [] \<or> (\<not> isSpace (hd s) \<and> \<not> isPunct (hd s))
     \<Longrightarrow> tight q (dropLF s)"
proof (induction s arbitrary: p q)
  case Nil
  then show ?case by simp
next
  case (Cons x xs)
  show ?case
  proof (cases "x = LF")
    case True
    note j = cleanBreaks_LF [OF Cons.prems(1) [unfolded True]]
    from Cons.prems(2) have "tight (Some LF) xs" using True by simp
    from Cons.IH [OF j(5) this, of q] j(1,2,3) show ?thesis using True by simp
  next
    case False
    from Cons.prems(1,2) have "cleanBreaks (Some x) xs" "tight (Some x) xs" by simp_all
    from Cons.IH [OF this, of "Some x"] have t: "tight (Some x) (dropLF xs)" by simp
    from Cons.prems(2,3) have "case q of None \<Rightarrow> True
       | Some c \<Rightarrow> \<not> (isSpace c \<and> isPunct x) \<and> \<not> (isPunct c \<and> isSpace x)"
      by (auto split: option.splits)
    with t False show ?thesis by simp
  qed
qed

text \<open>prefixes of the text without line feeds are prefixes of the text\<close>

lemma word_prefix:
  assumes "A \<noteq> []" and "\<forall>c \<in> set A. isWord c" and "dropLF t = A @ x" and "joints p t"
    and "t = [] \<or> hd t \<noteq> LF"
  shows "\<exists>t'. t = A @ t' \<and> dropLF t' = x \<and> joints (Some (last A)) t'"
  using assms
proof (induction A arbitrary: p t)
  case Nil
  then show ?case by simp
next
  case (Cons a A)
  from Cons.prems(3) have "t \<noteq> []" by auto
  with Cons.prems(5) obtain y t1 where t: "t = y # t1" and y: "y \<noteq> LF" by (cases t) auto
  from Cons.prems(3) t y have ya: "y = a" and d1: "dropLF t1 = A @ x" by simp_all
  from Cons.prems(4) t ya have j1: "joints (Some a) t1" by simp
  show ?case
  proof (cases "A = []")
    case True
    with t ya d1 j1 show ?thesis by simp
  next
    case False
    then obtain a2 A2 where A: "A = a2 # A2" by (cases A) auto
    have h: "t1 = [] \<or> hd t1 \<noteq> LF"
    proof (rule ccontr)
      assume "\<not> (t1 = [] \<or> hd t1 \<noteq> LF)"
      then obtain t2 where t1: "t1 = LF # t2" by (cases t1) auto
      note j = joints_LF [OF j1 [unfolded t1]]
      from j(1) obtain z t3 where t2: "t2 = z # t3" by (cases t2) auto
      from j(4) t2 have "z \<noteq> LF" by simp
      with d1 t1 t2 A have "z = a2" by simp
      with j(6) t2 Cons.prems(2) A show False by simp
    qed
    from Cons.IH [OF False _ d1 j1 h] Cons.prems(2) obtain t' where
      "t1 = A @ t'" "dropLF t' = x" "joints (Some (last A)) t'" by auto
    with t ya False show ?thesis by simp
  qed
qed

lemma space_prefix:
  assumes "w \<noteq> []" and "\<forall>c \<in> set w. isSpace c" and "dropLF t = w @ x" and "joints p t"
    and "t = [] \<or> hd t \<noteq> LF"
  shows "\<exists>t'. t = w @ t' \<and> dropLF t' = x \<and> joints (Some (last w)) t' \<and> (t' = [] \<or> hd t' \<noteq> LF)"
  using assms
proof (induction w arbitrary: p t)
  case Nil
  then show ?case by simp
next
  case (Cons a w)
  from Cons.prems(3) have "t \<noteq> []" by auto
  with Cons.prems(5) obtain y t1 where t: "t = y # t1" and y: "y \<noteq> LF" by (cases t) auto
  from Cons.prems(3) t y have ya: "y = a" and d1: "dropLF t1 = w @ x" by simp_all
  from Cons.prems(4) t ya have j1: "joints (Some a) t1" by simp
  from Cons.prems(2) have sa: "isSpace a" by simp
  have h: "t1 = [] \<or> hd t1 \<noteq> LF"
  proof (rule ccontr)
    assume "\<not> (t1 = [] \<or> hd t1 \<noteq> LF)"
    then obtain t2 where t1: "t1 = LF # t2" by (cases t1) auto
    from joints_LF(6) [OF j1 [unfolded t1]] sa show False by simp
  qed
  show ?case
  proof (cases "w = []")
    case True
    with t ya d1 j1 h show ?thesis by simp
  next
    case False
    from Cons.IH [OF False _ d1 j1 h] Cons.prems(2) obtain t' where
      "t1 = w @ t'" "dropLF t' = x" "joints (Some (last w)) t'" "t' = [] \<or> hd t' \<noteq> LF" by auto
    with t ya False show ?thesis by simp
  qed
qed

lemma after_word:
  assumes "joints (Some c) t" and "dropLF t = y # x" and "isSpace y \<or> isPunct y" 
  shows "\<exists>t'. t = y # t' \<and> dropLF t' = x \<and> joints (Some y) t'"
proof (cases t)
  case Nil
  with assms(2) show ?thesis by simp
next
  case (Cons z t1)
  show ?thesis
  proof (cases "z = LF")
    case True
    note j = joints_LF [OF assms(1) [unfolded Cons True]]
    from j(1) obtain z2 t2 where t1: "t1 = z2 # t2" by (cases t1) auto
    from j(4) t1 have "z2 \<noteq> LF" by simp
    with assms(2) Cons True t1 have "z2 = y" by simp
    with j(2,3) t1 assms(3) show ?thesis by simp
  next
    case False
    with assms(1,2) Cons show ?thesis by simp
  qed
qed

lemma joints_run:
  "joints p (w @ v) \<Longrightarrow> \<forall>c \<in> set w. isSpace c \<Longrightarrow> LF \<in> set w \<Longrightarrow> w = [LF]"
proof (induction w arbitrary: p)
  case Nil
  then show ?case by simp
next
  case (Cons x w)
  show ?case
  proof (cases "x = LF")
    case True
    from Cons.prems(1) True have "joints p (LF # (w @ v))" by simp
    note j = joints_LF [OF this]
    have "w = []"
    proof (rule ccontr)
      assume "w \<noteq> []"
      then obtain y ys where "w = y # ys" by (cases w) auto
      with j(2) Cons.prems(2) show False by simp
    qed
    with True show ?thesis by simp
  next
    case False
    with Cons.prems(3) have "LF \<in> set w" by simp
    moreover from Cons.prems(1) have j: "joints (Some x) (w @ v)" by simp
    ultimately have "w = [LF]" using Cons.IH Cons.prems(2) by simp
    with j have "joints (Some x) (LF # v)" by simp
    from joints_LF(6) [OF this] Cons.prems(2) show ?thesis by simp
  qed
qed

lemma head_nonspace_dropLF:
  "v = [] \<or> \<not> isSpace (hd v) \<Longrightarrow> dropLF v = [] \<or> \<not> isSpace (hd (dropLF v))"
proof (cases v)
  case Nil
  then show ?thesis by simp
next
  case (Cons y ys)
  assume "v = [] \<or> \<not> isSpace (hd v)"
  with Cons have y: "\<not> isSpace y" by simp
  with LF_space(1) have "y \<noteq> LF" by auto
  with Cons y show ?thesis by simp
qed

lemma segn_dropLF:
  assumes ok: "segOK D" and inv: "segInv D"
    and canonI: "\<And>s a w b u x. D s = Some (a, w, b, u) \<Longrightarrow> D (a @ SP # b @ x) = Some (a, [SP], b, x)"
    and noCreate: "\<And>p t. joints p t \<Longrightarrow> t = [] \<or> hd t \<noteq> LF \<Longrightarrow> D t = None \<Longrightarrow> D (dropLF t) = None"
  shows "segn D u v \<Longrightarrow> joints p v \<Longrightarrow> segn D (dropLF v) (dropLF v)"
proof (induction arbitrary: p rule: segn.induct)
  case segn_Nil
  then show ?case by (simp add: segn.segn_Nil)
next
  case (segn_match s a w b u v)
  note k = segOK_D [OF ok \<open>D s = Some (a, w, b, u)\<close>]
  from segn_match.prems have "joints p ((a @ SP # b) @ v)" by simp
  from joints_append [OF this] have "joints (prevAfter p (a @ SP # b)) v" .
  from segn_match.IH [OF this] have ih: "segn D (dropLF v) (dropLF v)" .
  have sp: "SP \<noteq> LF" by (simp add: SP_def LF_def)
  have e: "dropLF (a @ SP # b @ v) = a @ SP # b @ dropLF v"
    using dropLF_nonspace [OF k(3)] dropLF_nonspace [OF k(5)] sp by simp
  from canonI [OF \<open>D s = Some (a, w, b, u)\<close>]
  have "D (a @ SP # b @ dropLF v) = Some (a, [SP], b, dropLF v)" .
  from segn.segn_match [OF this ih] show ?case unfolding e .
next
  case (segn_char c u v)
  have n: "nrm u v" using segn_nrm [OF \<open>segn D u v\<close> ok] .
  have cn: "canon (c # v) = canon (c # u)"
    using nrm_canon [OF nrm_char [OF \<open>\<not> isSpace c\<close> n]] by simp
  have dv: "D (c # v) = None"
  proof (rule ccontr)
    assume "D (c # v) \<noteq> None"
    then obtain a w b u2 where "D (c # v) = Some (a, w, b, u2)" by (cases "D (c # v)") auto
    with inv cn obtain w' u' where "D (c # u) = Some (a, w', b, u')"
      unfolding segInv_def by blast
    with \<open>D (c # u) = None\<close> show False by simp
  qed
  from \<open>\<not> isSpace c\<close> LF_space(1) have c: "c \<noteq> LF" by auto
  from segn_char.prems have "joints (Some c) v" by simp
  from segn_char.IH [OF this] have ih: "segn D (dropLF v) (dropLF v)" .
  from noCreate [OF segn_char.prems _ dv] c have "D (c # dropLF v) = None" by simp
  from segn.segn_char [OF \<open>\<not> isSpace c\<close> this ih] c show ?case by simp
next
  case (segn_run w u v w')
  have n: "nrm u v" using segn_nrm [OF \<open>segn D u v\<close> ok] .
  from nrm_start [OF n \<open>u = [] \<or> \<not> isSpace (hd u)\<close>] have hv: "v = [] \<or> \<not> isSpace (hd v)" .
  from \<open>w' = w \<or> w' = [SP]\<close> \<open>w \<noteq> []\<close> \<open>\<forall>c \<in> set w. isSpace c\<close> SP_space
  have w': "w' \<noteq> []" "\<forall>c \<in> set w'. isSpace c" by auto
  from joints_append [OF segn_run.prems] have "joints (prevAfter p w') v" .
  from segn_run.IH [OF this] have ih: "segn D (dropLF v) (dropLF v)" .
  show ?case
  proof (cases "LF \<in> set w'")
    case True
    from joints_run [OF segn_run.prems w'(2) True] have "w' = [LF]" .
    with ih show ?thesis by simp
  next
    case False
    then have e: "dropLF (w' @ v) = w' @ dropLF v" by (simp add: dropLF_id)
    from segn.segn_run [OF w' head_nonspace_dropLF [OF hv] ih, of w'] show ?thesis
      unfolding e by simp
  qed
qed

lemma kwSeg_canon:
  assumes "kwSeg A B s = Some (a, w, b, u)" and "B \<noteq> []" and "\<not> isSpace (hd B)"
  shows "kwSeg A B (a @ SP # b @ x) = Some (a, [SP], b, x)"
proof -
  from kwSeg_elim [OF assms(1)] have ab: "a = A" "b = B" by simp_all
  from kwSeg_intro [of "[SP]" B A x] assms(2,3) SP_space show ?thesis unfolding ab by simp
qed

lemma kwSeg_dropLF:
  assumes A: "A \<noteq> []" "\<forall>c \<in> set A. isWord c" and B: "B \<noteq> []" "\<forall>c \<in> set B. isWord c"
    and j: "joints p t" and h: "t = [] \<or> hd t \<noteq> LF" and n: "kwSeg A B t = None"
  shows "kwSeg A B (dropLF t) = None"
proof (rule ccontr)
  assume "kwSeg A B (dropLF t) \<noteq> None"
  then obtain a w b u where d: "kwSeg A B (dropLF t) = Some (a, w, b, u)"
    by (cases "kwSeg A B (dropLF t)") auto
  from kwSeg_elim [OF d] have e: "dropLF t = A @ w @ B @ u" and w: "w \<noteq> []" "\<forall>c \<in> set w. isSpace c"
    by simp_all
  from word_prefix [OF A e j h] obtain t1 where t1: "t = A @ t1" and d1: "dropLF t1 = w @ B @ u"
    and j1: "joints (Some (last A)) t1" by blast
  from w(1) obtain y w1 where wy: "w = y # w1" by (cases w) auto
  with w(2) have sy: "isSpace y" by simp
  from d1 wy have "dropLF t1 = y # (w1 @ B @ u)" by simp
  from after_word [OF j1 this] sy obtain t1' where t1': "t1 = y # t1'" by blast
  have "y \<in> set (dropLF t1)" using d1 wy by simp
  with dropLF_no_LF [of t1] have "y \<noteq> LF" by auto
  with t1' have h1: "t1 = [] \<or> hd t1 \<noteq> LF" by simp
  from space_prefix [OF w d1 j1 h1] obtain t2 where t2: "t1 = w @ t2" and d2: "dropLF t2 = B @ u"
    and j2: "joints (Some (last w)) t2" and h2: "t2 = [] \<or> hd t2 \<noteq> LF" by blast
  from word_prefix [OF B d2 j2 h2] obtain t3 where t3: "t2 = B @ t3" by blast
  have "\<not> isSpace (hd B)" using B word_not_space by (cases B) auto
  from kwSeg_intro [OF w B(1) this, of A t3] t1 t2 t3 n show False by simp
qed

lemma tySeg_canon:
  assumes "tySeg s = Some (a, w, b, u)"
  shows "tySeg (a @ SP # b @ x) = Some (a, [SP], b, x)"
proof -
  from tySeg_elim [OF assms] obtain name where a: "a = js ''type''" and b: "b = name @ [EQ]"
    and nm: "name \<noteq> []" "\<forall>c \<in> set name. isWord c" by blast
  from tySeg_intro [of "[SP]" name x] nm SP_space show ?thesis unfolding a b by simp
qed

lemma type_word: "js ''type'' \<noteq> []" "\<forall>c \<in> set (js ''type''). isWord c"
  by (simp_all add: js_def isWord_def isAlpha_def)

lemma tySeg_dropLF:
  assumes j: "joints p t" and h: "t = [] \<or> hd t \<noteq> LF" and n: "tySeg t = None"
  shows "tySeg (dropLF t) = None"
proof (rule ccontr)
  assume "tySeg (dropLF t) \<noteq> None"
  then obtain a w b u where d: "tySeg (dropLF t) = Some (a, w, b, u)"
    by (cases "tySeg (dropLF t)") auto
  from tySeg_elim [OF d] obtain name where e: "dropLF t = js ''type'' @ w @ name @ EQ # u"
    and w: "w \<noteq> []" "\<forall>c \<in> set w. isSpace c" and nm: "name \<noteq> []" "\<forall>c \<in> set name. isWord c"
    by blast
  from word_prefix [OF type_word e j h] obtain t1 where t1: "t = js ''type'' @ t1"
    and d1: "dropLF t1 = w @ name @ EQ # u" and j1: "joints (Some (last (js ''type''))) t1" by blast
  from w(1) obtain y w1 where wy: "w = y # w1" by (cases w) auto
  with w(2) have sy: "isSpace y" by simp
  from d1 wy have "dropLF t1 = y # (w1 @ name @ EQ # u)" by simp
  from after_word [OF j1 this] sy obtain t1' where t1': "t1 = y # t1'" by blast
  have "y \<in> set (dropLF t1)" using d1 wy by simp
  with dropLF_no_LF [of t1] have "y \<noteq> LF" by auto
  with t1' have h1: "t1 = [] \<or> hd t1 \<noteq> LF" by simp
  from space_prefix [OF w d1 j1 h1] obtain t2 where t2: "t1 = w @ t2"
    and d2: "dropLF t2 = name @ EQ # u"
    and j2: "joints (Some (last w)) t2" and h2: "t2 = [] \<or> hd t2 \<noteq> LF" by blast
  from word_prefix [OF nm d2 j2 h2] obtain t3 where t3: "t2 = name @ t3"
    and d3: "dropLF t3 = EQ # u" and j3: "joints (Some (last name)) t3" by blast
  from after_word [OF j3 d3] EQ_facts(1) obtain t4 where t4: "t3 = EQ # t4" by blast
  from tySeg_intro [OF w nm, of t4] t1 t2 t3 t4 n show False by simp
qed

lemma kw_word:
  "\<forall>c \<in> set (js ''export''). isWord c" "\<forall>c \<in> set (js ''const''). isWord c"
  "\<forall>c \<in> set (js ''enum''). isWord c" "\<forall>c \<in> set (js ''interface''). isWord c"
  by (simp_all add: js_def isWord_def isAlpha_def)

text \<open>
  The line step on a text whose lines have no white space at their ends.
\<close>

lemma split_no_LF: "sep \<notin> set s \<Longrightarrow> split sep s = [s]"
  by (induction s) auto

lemma trim_id: "s = [] \<or> (\<not> isSpace (hd s) \<and> \<not> isSpace (last s)) \<Longrightarrow> trim s = s"
proof (cases s)
  case Nil
  then show ?thesis by (simp add: trim_def)
next
  case (Cons x xs)
  assume "s = [] \<or> (\<not> isSpace (hd s) \<and> \<not> isSpace (last s))"
  with Cons have h: "\<not> isSpace x" and l: "\<not> isSpace (last s)" by auto
  from h Cons have 1: "dropWhile isSpace s = s" by simp
  from Cons have "s = butlast s @ [last s]" by simp
  then have "rev s = rev (butlast s @ [last s])" by simp
  then have r: "rev s = last s # rev (butlast s)" by simp
  have "dropWhile isSpace (rev s) = rev s" unfolding r using l by simp
  with 1 show ?thesis by (simp add: trim_def)
qed

lemma processLines_fixed:
  assumes "LF \<notin> set s" and "s = [] \<or> (\<not> isSpace (hd s) \<and> \<not> isSpace (last s))"
  shows "processLines s = s"
  using assms by (auto simp: processLines_def split_no_LF trim_id)

lemma prevAfter_last: "u \<noteq> [] \<Longrightarrow> prevAfter p u = Some (last u)"
  by (induction u arbitrary: p) auto

lemma split_first: "sep \<notin> set u \<Longrightarrow> split sep (u @ sep # v) = u # split sep v"
  by (induction u) auto

lemma processLines_first:
  "LF \<notin> set u \<Longrightarrow> processLines (u @ LF # v) = trim u @ processLines v"
  by (simp add: processLines_def split_first)

lemma processLines_dropLF:
  "cleanBreaks p s \<Longrightarrow> s = [] \<or> (\<not> isSpace (hd s) \<and> \<not> isSpace (last s))
     \<Longrightarrow> processLines s = dropLF s"
proof (induction "length s" arbitrary: p s rule: less_induct)
  case less
  show ?case
  proof (cases "LF \<in> set s")
    case False
    with processLines_fixed [OF False less.prems(2)] show ?thesis by (simp add: dropLF_id)
  next
    case True
    from split_list_first [OF True] obtain u v where s: "s = u @ LF # v" and u: "LF \<notin> set u"
      by blast
    from s less.prems(2) have ends: "\<not> isSpace (hd s)" "\<not> isSpace (last s)" by auto
    have une: "u \<noteq> []"
    proof
      assume "u = []"
      with s ends(1) LF_space(1) show False by simp
    qed
    from less.prems(1) s have "cleanBreaks (prevAfter p u) (LF # v)" using cleanBreaks_append by blast
    note j = cleanBreaks_LF [OF this]
    from j(6) prevAfter_last [OF une, of p] have lu: "\<not> isSpace (last u)" by auto
    from une s ends(1) have hu: "\<not> isSpace (hd u)" by (cases u) auto
    from trim_id [of u] hu lu have tu: "trim u = u" by simp
    from j(1) s ends(2) have lv: "\<not> isSpace (last v)" by simp
    from s have "length v < length s" by simp
    from less.hyps [OF this j(5)] j(2) lv have "processLines v = dropLF v" by simp
    with processLines_first [OF u, of v] tu s dropLF_id [OF u] show ?thesis by simp
  qed
qed

lemma afterRules_ends:
  "afterRules s = [] \<or> (\<not> isSpace (hd (afterRules s)) \<and> \<not> isSpace (last (afterRules s)))"
proof (cases "afterRules s")
  case Nil
  then show ?thesis by simp
next
  case (Cons x xs)
  from afterRules_result(1) [of s] Cons have "noLead None (x # xs)" and "noTrail (x # xs)"
    by simp_all
  then have "\<not> isSpace x" and "\<not> isSpace (last (x # xs))"
    using noTrail_last [of "x # xs"] by (simp_all add: bolp_def)
  with Cons show ?thesis by simp
qed

lemma afterRules_idempotent: "afterRules (afterRules s) = afterRules s"
  using afterRules_result(1) [of s] by simp

text \<open>
  Where the rule pass leaves no line feed, the line step has nothing to do.
\<close>

lemma advancedCompress_afterRules:
  assumes "LF \<notin> set (afterRules s)"
  shows "advancedCompress s = afterRules s"
proof -
  have "advancedCompress s = processLines (afterRules s)"
    by (simp add: advancedCompress_def afterRules_def)
  also have "\<dots> = afterRules s"
    using assms afterRules_ends by (rule processLines_fixed)
  finally show ?thesis .
qed

lemma kw_segn_dropLF:
  assumes rs: "ruleSeg Inv pat tmpl (kwSeg A B)"
    and A: "A \<noteq> []" "\<forall>c \<in> set A. isWord c" and B: "B \<noteq> []" "\<forall>c \<in> set B. isWord c"
    and g: "segn (kwSeg A B) u v" and j: "joints p v"
  shows "segn (kwSeg A B) (dropLF v) (dropLF v)"
proof (rule segn_dropLF [OF ruleSeg_D(1) [OF rs] ruleSeg_D(2) [OF rs] _ _ g j])
  fix s a w b u x
  assume d: "kwSeg A B s = Some (a, w, b, u)"
  have "\<not> isSpace (hd B)" using B word_not_space by (cases B) auto
  from kwSeg_canon [OF d B(1) this] show "kwSeg A B (a @ SP # b @ x) = Some (a, [SP], b, x)" .
next
  fix p t
  assume "joints p t" "t = [] \<or> hd t \<noteq> LF" "kwSeg A B t = None"
  then show "kwSeg A B (dropLF t) = None" by (rule kwSeg_dropLF [OF A B])
qed

lemma ty_segn_dropLF:
  assumes g: "segn tySeg u v" and j: "joints p v"
  shows "segn tySeg (dropLF v) (dropLF v)"
proof (rule segn_dropLF [OF tySeg_OK tySeg_Inv _ _ g j])
  fix s a w b u x
  assume "tySeg s = Some (a, w, b, u)"
  then show "tySeg (a @ SP # b @ x) = Some (a, [SP], b, x)" by (rule tySeg_canon)
next
  fix p t
  assume "joints p t" "t = [] \<or> hd t \<noteq> LF" "tySeg t = None"
  then show "tySeg (dropLF t) = None" by (rule tySeg_dropLF)
qed

lemma afterRules_clean: "cleanBreaks None (afterRules s)"
  using afterRules_result(1) [of s] by (intro cleanBreaks_intro) simp_all

lemma afterRules_joints:
  assumes "\<not> wordBreak None (afterRules s)"
  shows "joints None (afterRules s)"
  using afterRules_result(1) [of s] assms by (intro joints_intro) simp_all

lemma advancedCompress_dropLF: "advancedCompress s = dropLF (afterRules s)"
proof -
  have "advancedCompress s = processLines (afterRules s)"
    by (simp add: advancedCompress_def afterRules_def)
  also have "\<dots> = dropLF (afterRules s)"
    using afterRules_clean afterRules_ends by (rule processLines_dropLF)
  finally show ?thesis .
qed

lemma joined_fixed:
  fixes s :: jsstring
  defines "t \<equiv> dropLF (afterRules s)"
  assumes g8: "segn (kwSeg (js ''export'') (js ''type'')) t t"
    and g9: "segn (kwSeg (js ''export'') (js ''const'')) t t"
    and g10: "segn (kwSeg (js ''export'') (js ''enum'')) t t"
    and g11: "segn (kwSeg (js ''export'') (js ''interface'')) t t"
    and g12: "segn tySeg t t"
  shows "afterRules t = t"
proof -
  let ?ap = "\<lambda>c rule. replaceFrom (fst rule) (snd rule) 0 None c"
  let ?k8 = "keywordRule ''export'' ''type''"
  let ?k9 = "keywordRule ''export'' ''const''"
  let ?k10 = "keywordRule ''export'' ''enum''"
  let ?k11 = "keywordRule ''export'' ''interface''"
  define r where "r = afterRules s"
  have t: "t = dropLF r" by (simp add: t_def r_def)
  note rs8 = keywordRule_ruleSeg [OF kw_export kw_type]
  note rs9 = keywordRule_ruleSeg [OF kw_export kw_const]
  note rs10 = keywordRule_ruleSeg [OF kw_export kw_enum]
  note rs11 = keywordRule_ruleSeg [OF kw_export kw_interface]
  from afterRules_clean [of s] have j: "cleanBreaks None r" by (simp add: r_def)
  from afterRules_result(1) [of s] have i: "noLead None r" "noTrail r" "tight None r"
    by (simp_all add: r_def)
  have l: "noLead None t" unfolding t using dropLF_noLead [OF j i(1)] by simp
  have tr: "noTrail t" unfolding t by (rule dropLF_noTrail [OF i(2)])
  have ti: "tight None t" unfolding t using dropLF_tight [OF j i(3)] by simp
  have f1: "?ap t rule1 = t" by (rule rule1_id [OF l tr])
  have f2: "?ap t rule2 = t" by (rule rule2_id [OF l])
  have f3: "?ap t rule3 = t" by (rule rule3_id [OF tr])
  have f4: "?ap t rule4 = t" by (rule rule4_id [OF ti])
  have f5: "?ap t (tightenRule ''import'' ''{'') = t"
    using tightenRule_id [OF ti, of "''{''" "''import''"] tighten_conds by simp
  have f6: "?ap t (tightenRule ''}'' ''from'') = t"
    using tightenRule_id [OF ti, of "''from''" "''}''"] tighten_conds by simp
  have f7: "?ap t (tightenRule ''export'' ''{'') = t"
    using tightenRule_id [OF ti, of "''{''" "''export''"] tighten_conds by simp
  have f8: "?ap t ?k8 = t" by (rule seg_fixed [OF rs8 g8]) simp
  have f9: "?ap t ?k9 = t" by (rule seg_fixed [OF rs9 g9]) simp
  have f10: "?ap t ?k10 = t" by (rule seg_fixed [OF rs10 g10]) simp
  have f11: "?ap t ?k11 = t" by (rule seg_fixed [OF rs11 g11]) simp
  have f12: "?ap t rule12 = t" by (rule seg_fixed [OF rule12_ruleSeg g12 ti])
  have f13: "?ap t rule13 = t" by (rule rule13_id [OF ti])
  show "afterRules t = t"
    unfolding afterRules_def compressionRules_eq applyRule_def replace_def
    by (simp add: f1 f2 f3 f4 f5 f6 f7 f8 f9 f10 f11 f12 f13)
qed

lemma segn_self:
  assumes ok: "segOK D" and none: "\<And>s. s = [] \<or> isSpace (hd s) \<Longrightarrow> D s = None"
    and can: "\<And>t1 t2 a w b u. t = t1 @ t2 \<Longrightarrow> D t2 = Some (a, w, b, u) \<Longrightarrow> w = [SP]"
  shows "segn D t t"
proof -
  have "t = t1 @ t2 \<Longrightarrow> segn D t2 t2" for t1 t2
  proof (induction "length t2" arbitrary: t1 t2 rule: less_induct)
    case less
    show ?case
    proof (cases t2)
      case Nil
      then show ?thesis by (simp add: segn.segn_Nil)
    next
      case (Cons x xs)
      show ?thesis
      proof (cases "isSpace x")
        case True
        let ?w = "takeWhile isSpace t2"
        let ?u = "dropWhile isSpace t2"
        have w: "?w \<noteq> []" "\<forall>c \<in> set ?w. isSpace c" using Cons True by (auto dest: set_takeWhileD)
        have u: "?u = [] \<or> \<not> isSpace (hd ?u)" using hd_dropWhile [of isSpace t2] by auto
        have e: "t2 = ?w @ ?u" by simp
        have "length ?u < length t2" using w(1) e by (metis length_append length_greater_0_conv less_add_same_cancel2)
        moreover have "t = (t1 @ ?w) @ ?u" using less.prems by simp
        ultimately have "segn D ?u ?u" by (rule less.hyps)
        from segn.segn_run [OF w u this, of ?w] show ?thesis by simp
      next
        case False
        show ?thesis
        proof (cases "D t2")
          case None
          have "t = (t1 @ [x]) @ xs" using less.prems Cons by simp
          with less.hyps [of xs "t1 @ [x]"] Cons have "segn D xs xs" by simp
          from segn.segn_char [OF False _ this] None Cons show ?thesis by simp
        next
          case (Some r)
          obtain a w b u where r: "r = (a, w, b, u)" by (cases r)
          with Some have d: "D t2 = Some (a, w, b, u)" by simp
          note k = segOK_D [OF ok d]
          from can [OF less.prems d] have w: "w = [SP]" .
          have "length u < length t2" using k(1,2) by simp
          moreover have "t = (t1 @ a @ w @ b) @ u" using less.prems k(1) by simp
          ultimately have "segn D u u" by (rule less.hyps)
          from segn.segn_match [OF d this] k(1) w show ?thesis by simp
        qed
      qed
    qed
  qed
  from this [of "[]" t] show ?thesis by simp
qed

lemma looseAfter_suffix:
  "\<not> looseAfter k (t1 @ t2) \<Longrightarrow> take (length k) t2 = k
     \<Longrightarrow> takeWhile isSpace (drop (length k) t2) = []
         \<or> takeWhile isSpace (drop (length k) t2) = [SP]"
proof (induction t1)
  case Nil
  then show ?case by (cases t2) auto
next
  case (Cons a t1)
  then show ?case by simp
qed

lemma kw_segn_tight:
  assumes A: "A \<noteq> []" "\<forall>c \<in> set A. \<not> isSpace c" and B: "B \<noteq> []" "\<forall>c \<in> set B. \<not> isSpace c"
    and n: "\<not> looseAfter A t"
  shows "segn (kwSeg A B) t t"
proof (rule segn_self [OF kwSeg_OK [OF A B]])
  fix s :: jsstring
  assume "s = [] \<or> isSpace (hd s)"
  then show "kwSeg A B s = None" by (rule kwSeg_none [OF A])
next
  fix t1 t2 a w b u
  assume t: "t = t1 @ t2" and d: "kwSeg A B t2 = Some (a, w, b, u)"
  from kwSeg_elim [OF d] have e: "t2 = A @ w @ B @ u" and w: "w \<noteq> []" "\<forall>c \<in> set w. isSpace c"
    by simp_all
  have "B @ u = [] \<or> \<not> isSpace (hd (B @ u))" using B by (cases B) auto
  from run_split(1) [OF w this] e have tw: "takeWhile isSpace (drop (length A) t2) = w" by simp
  from e have "take (length A) t2 = A" by simp
  from looseAfter_suffix [OF n [unfolded t] this] tw w(1) show "w = [SP]" by simp
qed

lemma ty_segn_tight:
  assumes n: "\<not> looseAfter (js ''type'') t"
  shows "segn tySeg t t"
proof (rule segn_self [OF tySeg_OK])
  fix s :: jsstring
  assume "s = [] \<or> isSpace (hd s)"
  then show "tySeg s = None" by (rule tySeg_none)
next
  fix t1 t2 a w b u
  assume t: "t = t1 @ t2" and d: "tySeg t2 = Some (a, w, b, u)"
  from tySeg_elim [OF d] obtain name where e: "t2 = js ''type'' @ w @ name @ EQ # u"
    and w: "w \<noteq> []" "\<forall>c \<in> set w. isSpace c" and nm: "name \<noteq> []" "\<forall>c \<in> set name. isWord c"
    by blast
  have "\<not> isSpace (hd name)" using nm word_not_space by (cases name) auto
  then have "name @ EQ # u = [] \<or> \<not> isSpace (hd (name @ EQ # u))" using nm(1) by (cases name) auto
  from run_split(1) [OF w this] e
  have tw: "takeWhile isSpace (drop (length (js ''type'')) t2) = w" by simp
  from e have "take (length (js ''type'')) t2 = js ''type''" by simp
  from looseAfter_suffix [OF n [unfolded t] this] tw w(1) show "w = [SP]" by simp
qed

section \<open>Idempotence and claim C6\<close>

text \<open>
  Claim C6 says that \<open>advancedCompress\<close> applied twice gives what it gives applied
  once.  The line step joins the lines without a separator, and the joined text can hold
  an occurrence of a rule that the rule pass did not see because a line feed stood inside
  it.  The two lines \<^verbatim>\<open>x.type  in\<close> and \<^verbatim>\<open>y == z\<close>, an expression statement of
  TypeScript without any string, give \<^verbatim>\<open>x.type  iny==z\<close>; there the rule for type
  aliases finds the name \<^verbatim>\<open>iny\<close> in front of an equals sign, and a second application
  gives \<^verbatim>\<open>x.type iny==z\<close>.
\<close>

theorem advancedCompress_idempotent_counterexample:
  "advancedCompress (advancedCompress (js ''x.type  in'' @ [LF] @ js ''y == z''))
     \<noteq> advancedCompress (js ''x.type  in'' @ [LF] @ js ''y == z'')"
  by code_simp

text \<open>
  The same happens where a line feed stands inside a keyword: the lines \<^verbatim>\<open>ex\<close> and
  \<^verbatim>\<open>port<TAB>type\<close> become \<^verbatim>\<open>export<TAB>type\<close>, and then \<^verbatim>\<open>export type\<close>.
\<close>

lemma advancedCompress_joins_keyword:
  "advancedCompress (js ''ex'' @ [LF] @ js ''port'' @ [0x09] @ js ''type'')
     = js ''export'' @ [0x09] @ js ''type''
   \<and> advancedCompress (js ''export'' @ [0x09] @ js ''type'') = js ''export type''"
  by code_simp

text \<open>
  The output of \<open>advancedCompress\<close> has no line feed, so a second application is
  a rule pass, and a third changes nothing any more, whatever the input.
\<close>

lemma advancedCompress_twice:
  "advancedCompress (advancedCompress s) = afterRules (advancedCompress s)"
proof -
  have "LF \<notin> set (advancedCompress s)"
    unfolding advancedCompress_def Let_def by (rule processLines_no_LF)
  then have "LF \<notin> set (afterRules (advancedCompress s))" by (rule afterRules_no_LF)
  then show ?thesis by (rule advancedCompress_afterRules)
qed

lemma advancedCompress_stable_after_two:
  "advancedCompress (advancedCompress (advancedCompress s))
     = advancedCompress (advancedCompress s)"
proof -
  let ?u = "advancedCompress s"
  have 1: "advancedCompress ?u = afterRules ?u"
    by (rule advancedCompress_twice)
  have "advancedCompress (advancedCompress ?u) = afterRules (advancedCompress ?u)"
    by (rule advancedCompress_twice)
  also have "\<dots> = afterRules (afterRules ?u)"
    by (simp only: 1)
  also have "\<dots> = afterRules ?u"
    by (rule afterRules_idempotent)
  also have "\<dots> = advancedCompress ?u"
    by (simp only: 1)
  finally show ?thesis .
qed

text \<open>
  Claim C6, amended.  \<open>advancedCompress\<close> applied twice gives what it gives applied once
  for every input, unless two things come together: the rule pass leaves a line feed
  between two word characters (letters, digits and the underscore), so that the line step
  joins two words, and in the output \<^verbatim>\<open>export\<close> or \<^verbatim>\<open>type\<close> is followed by a run of
  white space other than one space.  Both hold in the two examples above.
\<close>

theorem advancedCompress_idempotent_unless_joined:
  assumes "\<not> (wordBreak None (afterRules s) \<and> looseKeyword (advancedCompress s))"
  shows "advancedCompress (advancedCompress s) = advancedCompress s"
proof -
  let ?t = "dropLF (afterRules s)"
  let ?E = "js ''export''"
  have a: "advancedCompress s = ?t" by (rule advancedCompress_dropLF)
  have ne: "?E \<noteq> []" "js ''type'' \<noteq> []" "js ''const'' \<noteq> []" "js ''enum'' \<noteq> []"
    "js ''interface'' \<noteq> []" by (simp_all add: js_def)
  have g: "segn (kwSeg ?E (js ''type'')) ?t ?t \<and> segn (kwSeg ?E (js ''const'')) ?t ?t
         \<and> segn (kwSeg ?E (js ''enum'')) ?t ?t \<and> segn (kwSeg ?E (js ''interface'')) ?t ?t
         \<and> segn tySeg ?t ?t"
  proof (cases "wordBreak None (afterRules s)")
    case False
    note j = afterRules_joints [OF False]
    note rs8 = keywordRule_ruleSeg [OF kw_export kw_type]
    note rs9 = keywordRule_ruleSeg [OF kw_export kw_const]
    note rs10 = keywordRule_ruleSeg [OF kw_export kw_enum]
    note rs11 = keywordRule_ruleSeg [OF kw_export kw_interface]
    from afterRules_result(2) [of s] obtain u8 where u8: "segn (kwSeg ?E (js ''type'')) u8 (afterRules s)"
      by blast
    from afterRules_result(3) [of s] obtain u9 where u9: "segn (kwSeg ?E (js ''const'')) u9 (afterRules s)"
      by blast
    from afterRules_result(4) [of s] obtain u10 where u10: "segn (kwSeg ?E (js ''enum'')) u10 (afterRules s)"
      by blast
    from afterRules_result(5) [of s] obtain u11
      where u11: "segn (kwSeg ?E (js ''interface'')) u11 (afterRules s)"
      by blast
    from afterRules_result(6) [of s] obtain u12 where u12: "segn tySeg u12 (afterRules s)"
      by blast
    from kw_segn_dropLF [OF rs8 ne(1) kw_word(1) ne(2) type_word(2) u8 j]
      kw_segn_dropLF [OF rs9 ne(1) kw_word(1) ne(3) kw_word(2) u9 j]
      kw_segn_dropLF [OF rs10 ne(1) kw_word(1) ne(4) kw_word(3) u10 j]
      kw_segn_dropLF [OF rs11 ne(1) kw_word(1) ne(5) kw_word(4) u11 j]
      ty_segn_dropLF [OF u12 j]
    show ?thesis by simp
  next
    case True
    with assms a have n: "\<not> looseAfter ?E ?t" "\<not> looseAfter (js ''type'') ?t"
      by (simp_all add: looseKeyword_def)
    from kw_segn_tight [OF ne(1) kw_export(2) ne(2) kw_type(2) n(1)]
      kw_segn_tight [OF ne(1) kw_export(2) ne(3) kw_const(2) n(1)]
      kw_segn_tight [OF ne(1) kw_export(2) ne(4) kw_enum(2) n(1)]
      kw_segn_tight [OF ne(1) kw_export(2) ne(5) kw_interface(2) n(1)]
      ty_segn_tight [OF n(2)]
    show ?thesis by simp
  qed
  from joined_fixed [of s] g have f: "afterRules ?t = ?t" by simp
  have "LF \<notin> set (afterRules ?t)" unfolding f by (rule dropLF_no_LF)
  then have "advancedCompress ?t = afterRules ?t" by (rule advancedCompress_afterRules)
  with a f show ?thesis by simp
qed

theorem advancedCompress_idempotent_unless_joined_witness:
  "\<not> (wordBreak None (afterRules (js ''let a = 1'' @ [LF] @ js ''export   type  T = A |''
           @ [LF] @ js ''  B'' @ [LF] @ js ''let b = 2'' @ [LF]))
       \<and> looseKeyword (advancedCompress (js ''let a = 1'' @ [LF]
           @ js ''export   type  T = A |'' @ [LF] @ js ''  B'' @ [LF] @ js ''let b = 2'' @ [LF])))
   \<and> wordBreak None (afterRules (js ''let a = 1'' @ [LF] @ js ''export   type  T = A |''
           @ [LF] @ js ''  B'' @ [LF] @ js ''let b = 2'' @ [LF]))
   \<and> advancedCompress (advancedCompress (js ''let a = 1'' @ [LF]
          @ js ''export   type  T = A |'' @ [LF] @ js ''  B'' @ [LF] @ js ''let b = 2'' @ [LF]))
     = advancedCompress (js ''let a = 1'' @ [LF] @ js ''export   type  T = A |'' @ [LF]
          @ js ''  B'' @ [LF] @ js ''let b = 2'' @ [LF])"
proof -
  let ?s = "js ''let a = 1'' @ [LF] @ js ''export   type  T = A |'' @ [LF] @ js ''  B'' @ [LF]
              @ js ''let b = 2'' @ [LF]"
  have a: "wordBreak None (afterRules ?s)"
    by code_simp
  have b: "\<not> looseKeyword (advancedCompress ?s)"
    by code_simp
  from b have "\<not> (wordBreak None (afterRules ?s) \<and> looseKeyword (advancedCompress ?s))"
    by simp
  from advancedCompress_idempotent_unless_joined [OF this] a b show ?thesis by simp
qed

section \<open>The rules change white space only\<close>

text \<open>
  A match of any of the thirteen patterns reads the literals of the pattern, the capture
  and white space, and the template puts back the literals and the capture; the line step
  removes white space.  So \<open>advancedCompress\<close> keeps the code units that are not white
  space.
\<close>

lemma nonSpace_simps [simp]:
  "nonSpace [] = []"
  "nonSpace (x # xs) = (if isSpace x then nonSpace xs else x # nonSpace xs)"
  "nonSpace (u @ v) = nonSpace u @ nonSpace v"
  by (simp_all add: nonSpace_def)

lemma framed_Nil: "framed [] g cap s n cap n"
  unfolding framed_def by (intro exI [of _ 0]) simp

lemma framed_skip:
  assumes "framed pat g cap s n cap' n'" and "bef pat2 = bef pat" and "aft pat2 = aft pat"
    and "(GOpen \<in> set pat2) = (GOpen \<in> set pat)"
  shows "framed pat2 g cap s n cap' n'"
  using assms(1) unfolding framed_def assms(2,3,4) .

lemma framed_step:
  assumes "framed pat g (if g then cap @ [x] else cap) xs (Suc n) cap' n'"
    and "\<not> g \<Longrightarrow> bef pat2 = nonSpace [x] @ bef pat" and "aft pat2 = aft pat"
    and "(GOpen \<in> set pat2) = (GOpen \<in> set pat)"
  shows "framed pat2 g cap (x # xs) n cap' n'"
proof -
  from assms(1) obtain k where k: "n' = Suc n + k" "k \<le> length xs"
    and c: "if g then \<exists>d. cap' = (if g then cap @ [x] else cap) @ d
                      \<and> nonSpace (take k xs) = nonSpace d @ aft pat
            else if GOpen \<in> set pat then nonSpace (take k xs) = bef pat @ nonSpace cap' @ aft pat
            else cap' = (if g then cap @ [x] else cap) \<and> nonSpace (take k xs) = bef pat"
    unfolding framed_def by blast
  show ?thesis
  proof (cases g)
    case True
    with c obtain d where d: "cap' = cap @ [x] @ d" "nonSpace (take k xs) = nonSpace d @ aft pat"
      by auto
    have "nonSpace (take (Suc k) (x # xs)) = nonSpace (x # d) @ aft pat2"
      using d(2) assms(3) by simp
    with d(1) k True show ?thesis
      unfolding framed_def by (intro exI [of _ "Suc k"]) auto
  next
    case False
    with c assms(2,3,4) k show ?thesis
      unfolding framed_def by (intro exI [of _ "Suc k"]) auto
  qed
qed

lemma framed_open:
  "framed pat True [] s n cap' n' \<Longrightarrow> framed (GOpen # pat) False cap s n cap' n'"
  unfolding framed_def by auto

lemma framed_close:
  "framed pat False cap s n cap' n' \<Longrightarrow> GOpen \<notin> set pat
     \<Longrightarrow> framed (GClose # pat) True cap s n cap' n'"
  unfolding framed_def by auto

lemma matchAt_framed:
  "matchAt pat p s g cap n = Some (cap', n') \<Longrightarrow> wsOutside pat g \<Longrightarrow> framed pat g cap s n cap' n'"
proof (induction pat p s g cap n arbitrary: cap' n' rule: matchAt.induct)
  case (1 prev s grp cap n)
  then show ?case by (simp add: framed_Nil)
next
  case (2 c pat prev grp cap n)
  then show ?case by simp
next
  case (3 c pat prev x xs grp cap n)
  from "3.prems"(1) have xc: "x = c" by (simp split: if_splits)
  with "3.prems"(1)
  have m: "matchAt pat (Some x) xs grp (if grp then cap @ [x] else cap) (Suc n) = Some (cap', n')"
    by (cases grp) simp_all
  from "3.prems"(2) have w: "wsOutside pat grp" by simp
  from "3.IH" [OF xc m w] show ?case
    by (rule framed_step) (simp_all add: xc)
next
  case (4 P pat prev grp cap n)
  then show ?case by simp
next
  case (5 P pat prev x xs grp cap n)
  from "5.prems"(1) have px: "P x" by (simp split: if_splits)
  with "5.prems"(1)
  have m: "matchAt pat (Some x) xs grp (if grp then cap @ [x] else cap) (Suc n) = Some (cap', n')"
    by (cases grp) simp_all
  from "5.prems"(2) have w: "wsOutside pat grp" and sp: "\<not> grp \<Longrightarrow> isSpace x"
    using px by auto
  from "5.IH" [OF px m w] show ?case
    by (rule framed_step) (simp_all add: sp)
next
  case (6 P pat prev grp cap n)
  from "6.prems" have "matchAt pat prev [] grp cap n = Some (cap', n')" "wsOutside pat grp"
    by simp_all
  from "6.IH" [OF this] show ?case by (rule framed_skip) simp_all
next
  case (7 P pat prev x xs grp cap n)
  from "7.prems"(2) have w: "wsOutside pat grp" by simp
  show ?case
  proof (cases "P x")
    case True
    from "7.prems"(2) True have sp: "\<not> grp \<Longrightarrow> isSpace x" by auto
    show ?thesis
    proof (cases "matchAt (Star P # pat) (Some x) xs grp (if grp then cap @ [x] else cap) (Suc n)")
      case None
      with "7.prems"(1) True have m: "matchAt pat prev (x # xs) grp cap n = Some (cap', n')"
        by simp
      from "7.IH"(2) [OF True None m w] show ?thesis by (rule framed_skip) simp_all
    next
      case (Some r)
      with "7.prems"(1) True have r: "r = (cap', n')" by simp
      from "7.IH"(1) [OF True Some [unfolded r] "7.prems"(2)] show ?thesis
        by (rule framed_step) (simp_all add: sp)
    qed
  next
    case False
    with "7.prems"(1) have m: "matchAt pat prev (x # xs) grp cap n = Some (cap', n')" by simp
    from "7.IH"(3) [OF False m w] show ?thesis by (rule framed_skip) simp_all
  qed
next
  case (8 pat prev s grp cap n)
  from "8.prems" have m: "matchAt pat prev s True [] n = Some (cap', n')"
    and g: "\<not> grp" and w: "wsOutside pat True" by simp_all
  from framed_open [OF "8.IH" [OF m w], of cap] g show ?case by simp
next
  case (9 pat prev s grp cap n)
  from "9.prems" have m: "matchAt pat prev s False cap n = Some (cap', n')"
    and g: "grp" and o: "GOpen \<notin> set pat" and w: "wsOutside pat False" by simp_all
  from framed_close [OF "9.IH" [OF m w] o] g show ?case by simp
next
  case (10 pat prev s grp cap n)
  from "10.prems"(2) have w: "wsOutside pat grp" by simp
  show ?case
  proof (cases prev)
    case None
    with "10.prems"(1) have m: "matchAt pat prev s grp cap n = Some (cap', n')" by simp
    from "10.IH"(1) [OF None m w] show ?thesis by (rule framed_skip) simp_all
  next
    case (Some c)
    with "10.prems"(1) have lt: "isLineTerminator c"
      and m: "matchAt pat prev s grp cap n = Some (cap', n')" by (simp_all split: if_splits)
    from "10.IH"(2) [OF Some lt m w] show ?thesis by (rule framed_skip) simp_all
  qed
next
  case (11 pat prev s grp cap n)
  from "11.prems"(2) have w: "wsOutside pat grp" by simp
  show ?case
  proof (cases s)
    case Nil
    with "11.prems"(1) have m: "matchAt pat prev s grp cap n = Some (cap', n')" by simp
    from "11.IH"(1) [OF Nil m w] show ?thesis by (rule framed_skip) simp_all
  next
    case (Cons x xs)
    with "11.prems"(1) have lt: "isLineTerminator x"
      and m: "matchAt pat prev s grp cap n = Some (cap', n')" by (simp_all split: if_splits)
    from "11.IH"(2) [OF Cons lt m w] show ?thesis by (rule framed_skip) simp_all
  qed
qed

lemma nonSpace_take_drop: "nonSpace (take k s) @ nonSpace (drop k s) = nonSpace s"
  using nonSpace_simps(3) [of "take k s" "drop k s"] by simp

lemma match_nonSpace:
  assumes w: "wsOutside pat False"
    and t: "\<And>c. nonSpace (expand tmpl c)
               = (if GOpen \<in> set pat then bef pat @ nonSpace c @ aft pat else bef pat)"
    and m: "matchAt pat p s False [] 0 = Some (c, n)"
  shows "nonSpace (expand tmpl c) = nonSpace (take n s)" and "n \<le> length s"
proof -
  from matchAt_framed [OF m w] have f: "framed pat False [] s 0 c n" .
  from f show "n \<le> length s" unfolding framed_def by auto
  from f show "nonSpace (expand tmpl c) = nonSpace (take n s)"
    unfolding framed_def using t [of c] by (auto split: if_splits)
qed

lemma replaceFrom_nonSpace:
  assumes "wsOutside pat False"
    and "\<And>c. nonSpace (expand tmpl c)
               = (if GOpen \<in> set pat then bef pat @ nonSpace c @ aft pat else bef pat)"
  shows "nonSpace (replaceFrom pat tmpl k p s) = nonSpace (drop k s)"
  using assms
proof (induction pat tmpl k p s rule: replaceFrom.induct)
  case (1 pat tmpl k prev x xs)
  then show ?case by simp
next
  case (2 pat tmpl k prev)
  then show ?case by simp
next
  case (3 pat tmpl prev)
  show ?case
  proof (cases "matchAt pat prev [] False [] 0")
    case None
    then show ?thesis by simp
  next
    case (Some r)
    obtain c n where r: "r = (c, n)" by (cases r)
    from match_nonSpace [OF "3.prems" Some [unfolded r]] Some r show ?thesis by simp
  qed
next
  case (4 pat tmpl prev x xs)
  show ?case
  proof (cases "matchAt pat prev (x # xs) False [] 0")
    case None
    from "4.IH"(1) [OF None "4.prems"] None show ?thesis by simp
  next
    case (Some r)
    obtain c n where r: "r = (c, n)" by (cases r)
    note mm = match_nonSpace [OF "4.prems" Some [unfolded r]]
    show ?thesis
    proof (cases n)
      case 0
      from "4.IH"(2) [OF Some r [symmetric] 0 "4.prems"] mm(1) Some r 0 show ?thesis by simp
    next
      case (Suc k)
      from "4.IH"(3) [OF Some r [symmetric] Suc "4.prems"]
      have ih: "nonSpace (replaceFrom pat tmpl k (Some x) xs) = nonSpace (drop k xs)" .
      from nonSpace_take_drop [of "Suc k" "x # xs"] mm(1) Suc
      have "nonSpace (x # xs) = nonSpace (expand tmpl c) @ nonSpace (drop k xs)"
        by simp
      with ih Some r Suc show ?thesis by simp
    qed
  qed
qed

lemma rule_shape:
  assumes "rule \<in> set compressionRules"
  shows "wsOutside (fst rule) False"
    and "nonSpace (expand (snd rule) c)
           = (if GOpen \<in> set (fst rule) then bef (fst rule) @ nonSpace c @ aft (fst rule)
              else bef (fst rule))"
  using assms
  by (auto simp: compressionRules_def lits_def plus_def js_def isSpace_def isLineTerminator_def
        LF_def)

lemma applyRule_nonSpace:
  assumes "rule \<in> set compressionRules"
  shows "nonSpace (applyRule content rule) = nonSpace content"
  using replaceFrom_nonSpace [OF rule_shape(1) [OF assms] rule_shape(2) [OF assms], of 0 None content]
  by (simp add: applyRule_def replace_def)

lemma foldl_nonSpace:
  "set rules \<subseteq> set compressionRules
     \<Longrightarrow> nonSpace (foldl applyRule content rules) = nonSpace content"
proof (induction rules arbitrary: content)
  case Nil
  then show ?case by simp
next
  case (Cons a rules)
  then show ?case by (simp add: applyRule_nonSpace)
qed

lemma afterRules_nonSpace: "nonSpace (afterRules content) = nonSpace content"
  unfolding afterRules_def by (rule foldl_nonSpace) simp

lemma nonSpace_dropWhile: "nonSpace (dropWhile isSpace s) = nonSpace s"
  by (induction s) simp_all

lemma nonSpace_rev: "nonSpace (rev s) = rev (nonSpace s)"
  by (simp add: nonSpace_def rev_filter)

lemma nonSpace_trim: "nonSpace (trim s) = nonSpace s"
  by (simp add: trim_def nonSpace_rev nonSpace_dropWhile)

lemma nonSpace_lines:
  "nonSpace (concat (filter (\<lambda>line. line \<noteq> []) (map trim ls))) = nonSpace (concat ls)"
proof (induction ls)
  case Nil
  then show ?case by simp
next
  case (Cons a ls)
  have "nonSpace (trim a) = nonSpace a" by (rule nonSpace_trim)
  with Cons show ?case by (cases "trim a = []") auto
qed

lemma nonSpace_split: "nonSpace (concat (split LF s)) = nonSpace s"
proof (induction s)
  case Nil
  then show ?case by simp
next
  case (Cons x xs)
  show ?case
  proof (cases "x = LF")
    case True
    with Cons LF_space(1) show ?thesis by simp
  next
    case False
    obtain l ls where s: "split LF xs = l # ls" using split_nonempty [of LF xs] by (cases "split LF xs") auto
    with Cons False show ?thesis by simp
  qed
qed

lemma processLines_nonSpace: "nonSpace (processLines s) = nonSpace s"
  by (simp add: processLines_def nonSpace_lines nonSpace_split)

lemma advancedCompress_nonSpace: "nonSpace (advancedCompress s) = nonSpace s"
proof -
  have "advancedCompress s = processLines (afterRules s)"
    by (simp add: advancedCompress_def afterRules_def)
  then show ?thesis by (simp add: processLines_nonSpace afterRules_nonSpace)
qed

section \<open>The pipeline and claim C1\<close>

text \<open>
  Claim C1 says that the output of the default pipeline contains every token of the input
  that is neither a comment nor white space.  The rules of \<open>advancedCompress\<close> are applied
  to the text as a whole, so white space inside a token is treated like any other.  The
  statement \<^verbatim>\<open>const s = ' : ';\<close> has no comment, and the printer of the sample
  environment returns it as it is; its string literal \<^verbatim>\<open>' : '\<close> does not occur in the
  output \<^verbatim>\<open>const s=':';\<close>.
\<close>

theorem pipeline_tokens_counterexample:
  "(case defaultCompressionPipeline sample_world of
      Inl e \<Rightarrow> False
    | Inr compress \<Rightarrow>
        occursIn (js ''const s = ' : ';'') ([0x27] @ js '' : '' @ [0x27])
        \<and> compress (js ''const s = ' : ';'') = js ''const s=':';''
        \<and> \<not> occursIn (compress (js ''const s = ' : ';'')) ([0x27] @ js '' : '' @ [0x27]))"
proof -
  have "advancedCompress (js ''const s = ' : ';'') = js ''const s=':';''"
    by code_simp
  moreover have "occursIn (js ''const s = ' : ';'') ([0x27] @ js '' : '' @ [0x27])"
    by code_simp
  moreover have "\<not> occursIn (js ''const s=':';'') ([0x27] @ js '' : '' @ [0x27])"
    by code_simp
  ultimately show ?thesis
    by (simp add: defaultCompressionPipeline_Inr removeCommentsWithAST_def sample_world_def)
qed

text \<open>
  Claim C1, amended.  The default pipeline is defined on every input, and its output has
  the code units of the output of \<open>removeCommentsWithAST\<close> that are not white space, all
  of them and in their order: \<open>advancedCompress\<close> deletes and shortens white space and
  changes nothing else.  What \<open>removeCommentsWithAST\<close> returns is the result of the
  TypeScript printer, a parameter of the model.
\<close>

theorem pipeline_keeps_non_space:
  "\<exists>compress. defaultCompressionPipeline w = Inr compress
     \<and> nonSpace (compress s) = nonSpace (removeCommentsWithAST w s)"
  by (simp add: defaultCompressionPipeline_Inr advancedCompress_nonSpace)

section \<open>The import scenario and claim C5\<close>

text \<open>
  The statement \<^verbatim>\<open>import { foo } from 'bar';\<close> inside any text.  The statement begins
  with a letter and ends with a semicolon, and it has no line feed.  The first three rules
  copy it: a match of theirs that begins before the statement reads white space only and
  ends before the letter, and inside the statement nothing matches.  The fourth rule
  deletes the white space around the two braces, and a match of it that begins before the
  statement ends before the letter as well.
\<close>

lemma rule1_nomatch: "x \<noteq> LF \<Longrightarrow> matchAt (fst rule1) p (x # xs) False [] 0 = None"
  by (simp add: rule1_def)

lemma rule3_block:
  "replaceFrom (fst rule3) (snd rule3) 0 p (js ''import { foo } from 'bar';'' @ Y)
     = js ''import { foo } from 'bar';'' @ replaceFrom (fst rule3) (snd rule3) 0 (Some 0x3B) Y"
  by (simp add: rule3_match js_def isSpace_def isLineTerminator_def)

lemma rule2_block:
  "replaceFrom (fst rule2) (snd rule2) 0 p (js ''import { foo } from 'bar';'' @ Y)
     = js ''import { foo } from 'bar';'' @ replaceFrom (fst rule2) (snd rule2) 0 (Some 0x3B) Y"
  by (simp add: rule2_match js_def isSpace_def isLineTerminator_def bolp_def)

lemma rule1_block:
  "replaceFrom (fst rule1) (snd rule1) 0 p (js ''import { foo } from 'bar';'' @ Y)
     = js ''import { foo } from 'bar';'' @ replaceFrom (fst rule1) (snd rule1) 0 (Some 0x3B) Y"
  by (simp add: rule1_nomatch js_def LF_def)

lemma rule4_copy:
  "\<not> punctAhead (x # xs)
     \<Longrightarrow> replaceFrom (fst rule4) (snd rule4) 0 p (x # xs)
           = x # replaceFrom (fst rule4) (snd rule4) 0 None xs"
  using rule4_none [of "x # xs" p] replaceFrom_prev [OF rule4_Bol, of "snd rule4" 0 "Some x" xs None]
  by simp

lemma rule4_punct:
  "isPunct y
     \<Longrightarrow> replaceFrom (fst rule4) (snd rule4) 0 p (y # ys)
           = y # replaceFrom (fst rule4) (snd rule4) 0 None (dropWhile isSpace ys)"
  using rule4_step [of "y # ys" y ys p None] punct_not_space [of y] by simp

lemma rule4_space_punct:
  assumes "isSpace x" and "punctAhead xs"
  shows "replaceFrom (fst rule4) (snd rule4) 0 p (x # xs)
           = replaceFrom (fst rule4) (snd rule4) 0 None xs"
proof -
  from assms(2) obtain y ys where d: "dropWhile isSpace xs = y # ys" and y: "isPunct y"
    by (auto simp: punctAhead_def split: list.splits)
  from d assms(1) have d': "dropWhile isSpace (x # xs) = y # ys" by simp
  from rule4_step [OF d' y, of p None] rule4_step [OF d y, of None None] show ?thesis by simp
qed

lemma rule4_block:
  "replaceFrom (fst rule4) (snd rule4) 0 p (js ''import { foo } from 'bar';'' @ Y)
     = js ''import{foo}from 'bar';''
       @ replaceFrom (fst rule4) (snd rule4) 0 None (dropWhile isSpace Y)"
  by (simp add: rule4_copy rule4_punct rule4_space_punct punctAhead_def js_def isSpace_def
        isLineTerminator_def isPunct_def del: replaceFrom.simps)

text \<open>
  A scan of \<open>X @ Z\<close> in which no match that begins in \<open>X\<close> reaches into \<open>Z\<close> is a scan
  of \<open>X\<close> followed by a scan of \<open>Z\<close>.
\<close>

lemma replaceFrom_align:
  assumes "\<And>u1 u2 c n. X = u1 @ u2 \<Longrightarrow> u2 \<noteq> []
             \<Longrightarrow> matchAt pat (prevAfter p u1) (u2 @ Z) False [] 0 = Some (c, n) \<Longrightarrow> n \<le> length u2"
  shows "\<exists>X'. replaceFrom pat tmpl 0 p (X @ Z) = X' @ replaceFrom pat tmpl 0 (prevAfter p X) Z"
  using assms
proof (induction "length X" arbitrary: p X rule: less_induct)
  case less
  show ?case
  proof (cases X)
    case Nil
    then show ?thesis by simp
  next
    case (Cons x xs)
    have tl: "\<exists>X'. replaceFrom pat tmpl 0 (Some x) (xs @ Z)
                  = X' @ replaceFrom pat tmpl 0 (prevAfter p X) Z"
    proof -
      have "\<exists>X'. replaceFrom pat tmpl 0 (Some x) (xs @ Z)
                  = X' @ replaceFrom pat tmpl 0 (prevAfter (Some x) xs) Z"
      proof (rule less.hyps)
        show "length xs < length X" using Cons by simp
        fix u1 u2 c n
        assume "xs = u1 @ u2" "u2 \<noteq> []"
          "matchAt pat (prevAfter (Some x) u1) (u2 @ Z) False [] 0 = Some (c, n)"
        with less.prems [of "x # u1" u2 c n] Cons show "n \<le> length u2" by simp
      qed
      with Cons show ?thesis by simp
    qed
    show ?thesis
    proof (cases "matchAt pat p (x # xs @ Z) False [] 0")
      case None
      from tl obtain X' where "replaceFrom pat tmpl 0 (Some x) (xs @ Z)
                  = X' @ replaceFrom pat tmpl 0 (prevAfter p X) Z" by blast
      with None Cons have "replaceFrom pat tmpl 0 p (X @ Z)
          = (x # X') @ replaceFrom pat tmpl 0 (prevAfter p X) Z" by simp
      then show ?thesis by blast
    next
      case (Some r)
      obtain c n where r: "r = (c, n)" by (cases r)
      show ?thesis
      proof (cases n)
        case 0
        from tl obtain X' where "replaceFrom pat tmpl 0 (Some x) (xs @ Z)
                  = X' @ replaceFrom pat tmpl 0 (prevAfter p X) Z" by blast
        with Some r 0 Cons have "replaceFrom pat tmpl 0 p (X @ Z)
            = (expand tmpl c @ x # X') @ replaceFrom pat tmpl 0 (prevAfter p X) Z" by simp
        then show ?thesis by blast
      next
        case (Suc k)
        from less.prems [of "[]" X c n] Some r Cons have "n \<le> length X" by simp
        with Suc Cons have k: "k \<le> length xs" by simp
        let ?p2 = "prevAfter (Some x) (take k xs)"
        have "\<exists>X'. replaceFrom pat tmpl 0 ?p2 (drop k xs @ Z)
                  = X' @ replaceFrom pat tmpl 0 (prevAfter ?p2 (drop k xs)) Z"
        proof (rule less.hyps)
          show "length (drop k xs) < length X" using Cons by simp
          fix u1 u2 c' n'
          assume a: "drop k xs = u1 @ u2" "u2 \<noteq> []"
            "matchAt pat (prevAfter ?p2 u1) (u2 @ Z) False [] 0 = Some (c', n')"
          have "X = (x # take k xs @ u1) @ u2"
            using Cons a(1) append_take_drop_id [of k xs] by simp
          from less.prems [OF this a(2)] a(3) show "n' \<le> length u2" by simp
        qed
        then obtain X' where x': "replaceFrom pat tmpl 0 ?p2 (drop k xs @ Z)
                  = X' @ replaceFrom pat tmpl 0 (prevAfter ?p2 (drop k xs)) Z" by blast
        have pp: "prevAfter ?p2 (drop k xs) = prevAfter p X"
          using Cons prevAfter_append [of "Some x" "take k xs" "drop k xs", symmetric] by simp
        from k have "k \<le> length (xs @ Z)" by simp
        from replaceFrom_skip [OF this, of pat tmpl "Some x"] k
        have "replaceFrom pat tmpl k (Some x) (xs @ Z) = replaceFrom pat tmpl 0 ?p2 (drop k xs @ Z)"
          by simp
        with x' pp Some r Suc Cons have "replaceFrom pat tmpl 0 p (X @ Z)
            = (expand tmpl c @ X') @ replaceFrom pat tmpl 0 (prevAfter p X) Z" by simp
        then show ?thesis by blast
      qed
    qed
  qed
qed

lemma boundary:
  assumes "Z \<noteq> []" and "\<not> isSpace (hd Z)" and "hd Z \<notin> set (nonSpace (take n (u @ Z)))"
  shows "n \<le> length u"
proof (rule ccontr)
  assume "\<not> n \<le> length u"
  then obtain k where n: "n = length u + Suc k" by (metis add_Suc_right less_imp_Suc_add not_le)
  from assms(1) obtain z zs where Z: "Z = z # zs" by (cases Z) auto
  have t: "take n (u @ Z) = u @ z # take k zs" using n Z by simp
  have "z \<in> set (nonSpace (take n (u @ Z)))"
    unfolding t nonSpace_def using assms(2) Z by simp
  with assms(3) Z show False by simp
qed

lemma scan_nonSpace:
  assumes "rule \<in> set compressionRules"
  shows "nonSpace (replaceFrom (fst rule) (snd rule) 0 p s) = nonSpace s"
  using replaceFrom_nonSpace [OF rule_shape(1) [OF assms] rule_shape(2) [OF assms], of 0 p s]
  by simp

lemma ws_rule_align:
  assumes r: "rule \<in> set compressionRules" and t: "\<And>c. nonSpace (expand (snd rule) c) = []"
    and Z: "Z \<noteq> []" "\<not> isSpace (hd Z)"
  shows "\<exists>X'. replaceFrom (fst rule) (snd rule) 0 p (X @ Z)
              = X' @ replaceFrom (fst rule) (snd rule) 0 (prevAfter p X) Z
            \<and> nonSpace X' = nonSpace X"
proof -
  have "\<exists>X'. replaceFrom (fst rule) (snd rule) 0 p (X @ Z)
              = X' @ replaceFrom (fst rule) (snd rule) 0 (prevAfter p X) Z"
  proof (rule replaceFrom_align)
    fix u1 u2 c n
    assume m: "matchAt (fst rule) (prevAfter p u1) (u2 @ Z) False [] 0 = Some (c, n)"
    from match_nonSpace(1) [OF rule_shape(1) [OF r] rule_shape(2) [OF r] m] t [of c]
    have "nonSpace (take n (u2 @ Z)) = []" by simp
    then have "hd Z \<notin> set (nonSpace (take n (u2 @ Z)))" by simp
    from boundary [OF Z this] show "n \<le> length u2" .
  qed
  then obtain X' where e: "replaceFrom (fst rule) (snd rule) 0 p (X @ Z)
              = X' @ replaceFrom (fst rule) (snd rule) 0 (prevAfter p X) Z" by blast
  from arg_cong [OF e, of nonSpace] have "nonSpace X' = nonSpace X"
    by (simp add: scan_nonSpace [OF r])
  with e show ?thesis by blast
qed

lemma rule4_in: "rule4 \<in> set compressionRules"
  by (simp add: compressionRules_eq)

lemma rule4_align:
  assumes Z: "Z \<noteq> []" "\<not> isSpace (hd Z)" "\<not> isPunct (hd Z)"
  shows "\<exists>X'. replaceFrom (fst rule4) (snd rule4) 0 p (X @ Z)
              = X' @ replaceFrom (fst rule4) (snd rule4) 0 (prevAfter p X) Z
            \<and> nonSpace X' = nonSpace X"
proof -
  have "\<exists>X'. replaceFrom (fst rule4) (snd rule4) 0 p (X @ Z)
              = X' @ replaceFrom (fst rule4) (snd rule4) 0 (prevAfter p X) Z"
  proof (rule replaceFrom_align)
    fix u1 u2 c n
    assume m: "matchAt (fst rule4) (prevAfter p u1) (u2 @ Z) False [] 0 = Some (c, n)"
    from m obtain y where c: "c = [y]" and y: "isPunct y"
      by (auto simp: rule4_match split: list.splits if_splits simp del: dropWhile_eq_Nil_conv)
    have "expand (snd rule4) c = c" by (simp add: rule4_def)
    with match_nonSpace(1) [OF rule_shape(1) [OF rule4_in] rule_shape(2) [OF rule4_in] m]
    have "nonSpace (take n (u2 @ Z)) = nonSpace c" by simp
    with c y Z(3) have "hd Z \<notin> set (nonSpace (take n (u2 @ Z)))" by auto
    from boundary [OF Z(1,2) this] show "n \<le> length u2" .
  qed
  then obtain X' where e: "replaceFrom (fst rule4) (snd rule4) 0 p (X @ Z)
              = X' @ replaceFrom (fst rule4) (snd rule4) 0 (prevAfter p X) Z" by blast
  from arg_cong [OF e, of nonSpace] have "nonSpace X' = nonSpace X"
    by (simp add: scan_nonSpace [OF rule4_in])
  with e show ?thesis by blast
qed

lemma fragment_head:
  "js ''import { foo } from 'bar';'' @ Y \<noteq> []"
  "\<not> isSpace (hd (js ''import { foo } from 'bar';'' @ Y))"
  "\<not> isPunct (hd (js ''import { foo } from 'bar';'' @ Y))"
  by (simp_all add: js_def isSpace_def isLineTerminator_def isPunct_def)

lemma rule1_keeps:
  "\<exists>X' Y'. replace (X @ js ''import { foo } from 'bar';'' @ Y) rule1
             = X' @ js ''import { foo } from 'bar';'' @ Y'
           \<and> nonSpace X' = nonSpace X \<and> nonSpace Y' = nonSpace Y"
proof -
  have r: "rule1 \<in> set compressionRules" by (simp add: compressionRules_eq)
  moreover have "\<And>c. nonSpace (expand (snd rule1) c) = []"
    by (simp add: rule1_def LF_space)
  ultimately obtain X' where
    "replaceFrom (fst rule1) (snd rule1) 0 None (X @ js ''import { foo } from 'bar';'' @ Y)
       = X' @ replaceFrom (fst rule1) (snd rule1) 0 (prevAfter None X)
                (js ''import { foo } from 'bar';'' @ Y)"
    and "nonSpace X' = nonSpace X"
    using ws_rule_align [OF _ _ fragment_head(1,2), of rule1 None X Y] by blast
  then show ?thesis unfolding replace_def rule1_block
    using scan_nonSpace [OF r, of "Some 0x3B" Y] by blast
qed

lemma rule2_keeps:
  "\<exists>X' Y'. replace (X @ js ''import { foo } from 'bar';'' @ Y) rule2
             = X' @ js ''import { foo } from 'bar';'' @ Y'
           \<and> nonSpace X' = nonSpace X \<and> nonSpace Y' = nonSpace Y"
proof -
  have r: "rule2 \<in> set compressionRules" by (simp add: compressionRules_eq)
  moreover have "\<And>c. nonSpace (expand (snd rule2) c) = []"
    by (simp add: rule2_def)
  ultimately obtain X' where
    "replaceFrom (fst rule2) (snd rule2) 0 None (X @ js ''import { foo } from 'bar';'' @ Y)
       = X' @ replaceFrom (fst rule2) (snd rule2) 0 (prevAfter None X)
                (js ''import { foo } from 'bar';'' @ Y)"
    and "nonSpace X' = nonSpace X"
    using ws_rule_align [OF _ _ fragment_head(1,2), of rule2 None X Y] by blast
  then show ?thesis unfolding replace_def rule2_block
    using scan_nonSpace [OF r, of "Some 0x3B" Y] by blast
qed

lemma rule3_keeps:
  "\<exists>X' Y'. replace (X @ js ''import { foo } from 'bar';'' @ Y) rule3
             = X' @ js ''import { foo } from 'bar';'' @ Y'
           \<and> nonSpace X' = nonSpace X \<and> nonSpace Y' = nonSpace Y"
proof -
  have r: "rule3 \<in> set compressionRules" by (simp add: compressionRules_eq)
  moreover have "\<And>c. nonSpace (expand (snd rule3) c) = []"
    by (simp add: rule3_def)
  ultimately obtain X' where
    "replaceFrom (fst rule3) (snd rule3) 0 None (X @ js ''import { foo } from 'bar';'' @ Y)
       = X' @ replaceFrom (fst rule3) (snd rule3) 0 (prevAfter None X)
                (js ''import { foo } from 'bar';'' @ Y)"
    and "nonSpace X' = nonSpace X"
    using ws_rule_align [OF _ _ fragment_head(1,2), of rule3 None X Y] by blast
  then show ?thesis unfolding replace_def rule3_block
    using scan_nonSpace [OF r, of "Some 0x3B" Y] by blast
qed

lemma rule4_makes:
  "\<exists>X' Y'. replace (X @ js ''import { foo } from 'bar';'' @ Y) rule4
             = X' @ js ''import{foo}from 'bar';'' @ Y'
           \<and> nonSpace X' = nonSpace X \<and> nonSpace Y' = nonSpace Y"
proof -
  obtain X' where
    "replaceFrom (fst rule4) (snd rule4) 0 None (X @ js ''import { foo } from 'bar';'' @ Y)
       = X' @ replaceFrom (fst rule4) (snd rule4) 0 (prevAfter None X)
                (js ''import { foo } from 'bar';'' @ Y)"
    and "nonSpace X' = nonSpace X"
    using rule4_align [OF fragment_head, of None X Y] by blast
  then show ?thesis unfolding replace_def rule4_block
    using scan_nonSpace [OF rule4_in, of None "dropWhile isSpace Y"]
    by (auto simp: nonSpace_dropWhile)
qed

lemma first_four_rules:
  "\<exists>X' Y'. replace (replace (replace (replace (X @ js ''import { foo } from 'bar';'' @ Y) rule1)
               rule2) rule3) rule4
             = X' @ js ''import{foo}from 'bar';'' @ Y'
           \<and> nonSpace X' = nonSpace X \<and> nonSpace Y' = nonSpace Y"
proof -
  from rule1_keeps [of X Y] obtain X1 Y1 where
    1: "replace (X @ js ''import { foo } from 'bar';'' @ Y) rule1
          = X1 @ js ''import { foo } from 'bar';'' @ Y1"
    and n1: "nonSpace X1 = nonSpace X" "nonSpace Y1 = nonSpace Y" by blast
  from rule2_keeps [of X1 Y1] obtain X2 Y2 where
    2: "replace (X1 @ js ''import { foo } from 'bar';'' @ Y1) rule2
          = X2 @ js ''import { foo } from 'bar';'' @ Y2"
    and n2: "nonSpace X2 = nonSpace X1" "nonSpace Y2 = nonSpace Y1" by blast
  from rule3_keeps [of X2 Y2] obtain X3 Y3 where
    3: "replace (X2 @ js ''import { foo } from 'bar';'' @ Y2) rule3
          = X3 @ js ''import { foo } from 'bar';'' @ Y3"
    and n3: "nonSpace X3 = nonSpace X2" "nonSpace Y3 = nonSpace Y2" by blast
  from rule4_makes [of X3 Y3] obtain X4 Y4 where
    4: "replace (X3 @ js ''import { foo } from 'bar';'' @ Y3) rule4
          = X4 @ js ''import{foo}from 'bar';'' @ Y4"
    and n4: "nonSpace X4 = nonSpace X3" "nonSpace Y4 = nonSpace Y3" by blast
  from 4 n1 n2 n3 n4 show ?thesis unfolding 1 2 3 by auto
qed

text \<open>
  The later rules shorten runs of white space and change nothing else, and the statement
  is left with one run, a single space; the line step removes white space at the ends
  of lines, and the statement has none.
\<close>

lemma nrm_nonSpace: "nrm u v \<Longrightarrow> nonSpace u = nonSpace v"
proof (induction rule: nrm.induct)
  case nrm_Nil
  then show ?case by simp
next
  case (nrm_char c u v)
  then show ?case by simp
next
  case (nrm_run w u v w')
  from nrm_run(2) have "nonSpace w = []" by (simp add: nonSpace_def)
  moreover from nrm_run(5) this have "nonSpace w' = []" by (auto simp: SP_space)
  ultimately show ?case using nrm_run.IH by simp
qed

lemma nrm_suffix:
  assumes "nrm s v" and "s = X @ Z" and "Z = [] \<or> \<not> isSpace (hd Z)"
  shows "\<exists>X' Z'. v = X' @ Z' \<and> nrm Z Z'"
  using assms
proof (induction arbitrary: X rule: nrm.induct)
  case nrm_Nil
  then have "Z = []" by simp
  then show ?case using nrm.nrm_Nil by blast
next
  case (nrm_char c u v)
  show ?case
  proof (cases X)
    case Nil
    with nrm_char.prems have "Z = c # u" by simp
    with nrm.nrm_char [OF nrm_char.hyps] show ?thesis by blast
  next
    case (Cons x X1)
    with nrm_char.prems have "u = X1 @ Z" by simp
    from nrm_char.IH [OF this nrm_char.prems(2)] obtain X' Z' where "v = X' @ Z'" "nrm Z Z'"
      by blast
    then have "c # v = (c # X') @ Z'" by simp
    with \<open>nrm Z Z'\<close> show ?thesis by blast
  qed
next
  case (nrm_run w u v w')
  from nrm_run.prems(1) obtain t where
    t: "(w = X @ t \<and> Z = t @ u) \<or> (w @ t = X \<and> u = t @ Z)"
    unfolding append_eq_append_conv2 by blast
  then show ?case
  proof
    assume a: "w = X @ t \<and> Z = t @ u"
    have "t = []"
    proof (rule ccontr)
      assume "t \<noteq> []"
      with a have "hd Z = hd t" "hd t \<in> set w" "Z \<noteq> []" by (cases t; simp)+
      with nrm_run.hyps(2) nrm_run.prems(2) show False by auto
    qed
    with a have "Z = u" by simp
    with nrm_run.hyps(4) show ?thesis by blast
  next
    assume a: "w @ t = X \<and> u = t @ Z"
    from nrm_run.IH [of t] a nrm_run.prems(2) obtain X' Z' where "v = X' @ Z'" "nrm Z Z'"
      by blast
    then have "w' @ v = (w' @ X') @ Z'" by simp
    with \<open>nrm Z Z'\<close> show ?thesis by blast
  qed
qed

lemma nrm_keeps_import:
  assumes "nrm (X @ js ''import{foo}from 'bar';'' @ Y) v"
  shows "\<exists>X' Y'. v = X' @ js ''import{foo}from 'bar';'' @ Y'
           \<and> nonSpace X' = nonSpace X \<and> nonSpace Y' = nonSpace Y"
proof -
  let ?a = "js ''import{foo}from''" and ?b = "js [CHR 0x27, CHR ''b'', CHR ''a'', CHR ''r'', CHR 0x27, CHR '';'']"
  have G: "js ''import{foo}from 'bar';'' = ?a @ SP # ?b" by (simp add: js_def SP_def)
  have a: "\<forall>c \<in> set ?a. \<not> isSpace c" and b: "\<forall>c \<in> set ?b. \<not> isSpace c"
    by (simp_all add: js_def isSpace_def isLineTerminator_def)
  have h: "js ''import{foo}from 'bar';'' @ Y = []
             \<or> \<not> isSpace (hd (js ''import{foo}from 'bar';'' @ Y))"
    by (simp add: js_def isSpace_def isLineTerminator_def)
  from nrm_suffix [OF assms refl h] obtain X' Z' where
    v: "v = X' @ Z'" and n: "nrm (js ''import{foo}from 'bar';'' @ Y) Z'" by blast
  from n have "nrm (?a @ (SP # ?b @ Y)) Z'" unfolding G by simp
  from nrm_lits_inv [OF this a] obtain Z1 where
    1: "Z' = ?a @ Z1" and n1: "nrm (SP # ?b @ Y) Z1" by blast
  from n1 have n1': "nrm ([SP] @ (?b @ Y)) Z1" by simp
  have hb: "?b @ Y = [] \<or> \<not> isSpace (hd (?b @ Y))"
    by (simp add: js_def isSpace_def isLineTerminator_def)
  from nrm_run_inv [OF n1' _ _ hb] obtain w' Z2 where
    2: "Z1 = w' @ Z2" and w: "w' = [SP] \<or> w' = [SP]" and n2: "nrm (?b @ Y) Z2"
    by (auto simp: SP_space)
  from nrm_lits_inv [OF n2 b] obtain Y' where 3: "Z2 = ?b @ Y'" and n3: "nrm Y Y'" by blast
  from 1 2 3 w have Z': "Z' = js ''import{foo}from 'bar';'' @ Y'" unfolding G by auto
  from nrm_nonSpace [OF n3] have nY: "nonSpace Y' = nonSpace Y" by simp
  from nrm_nonSpace [OF assms] v Z' nY have "nonSpace X' = nonSpace X" by simp
  with v Z' nY show ?thesis by blast
qed

lemma afterRules_import:
  "\<exists>X' Y'. afterRules (X @ js ''import { foo } from 'bar';'' @ Y)
             = X' @ js ''import{foo}from 'bar';'' @ Y'
           \<and> nonSpace X' = nonSpace X \<and> nonSpace Y' = nonSpace Y"
proof -
  from first_four_rules [of X Y] obtain X1 Y1 where
    e: "replace (replace (replace (replace (X @ js ''import { foo } from 'bar';'' @ Y) rule1)
               rule2) rule3) rule4 = X1 @ js ''import{foo}from 'bar';'' @ Y1"
    and n: "nonSpace X1 = nonSpace X" "nonSpace Y1 = nonSpace Y" by blast
  from afterRules_result(7) [of "X @ js ''import { foo } from 'bar';'' @ Y"]
  have "nrm (X1 @ js ''import{foo}from 'bar';'' @ Y1)
          (afterRules (X @ js ''import { foo } from 'bar';'' @ Y))" unfolding e .
  from nrm_keeps_import [OF this] n show ?thesis by auto
qed

lemma dropWhile_before:
  assumes "G \<noteq> []" and "\<not> P (hd G)"
  shows "dropWhile P (a @ G @ c) = dropWhile P a @ G @ c"
proof (cases "\<forall>x \<in> set a. P x")
  case True
  then have "dropWhile P a = []" by simp
  moreover from assms have "dropWhile P (G @ c) = G @ c" by (cases G) auto
  ultimately show ?thesis using True by (simp add: dropWhile_append)
next
  case False
  then show ?thesis by (auto simp: dropWhile_append)
qed

lemma trim_around:
  assumes "G \<noteq> []" and "\<not> isSpace (hd G)" and "\<not> isSpace (last G)"
  shows "trim (a @ G @ c) = dropWhile isSpace a @ G @ rev (dropWhile isSpace (rev c))"
proof -
  have r: "rev G \<noteq> []" "\<not> isSpace (hd (rev G))" using assms by (simp_all add: hd_rev)
  have "rev (dropWhile isSpace (a @ G @ c)) = rev c @ rev G @ rev (dropWhile isSpace a)"
    by (simp add: dropWhile_before [of G isSpace, OF assms(1,2)])
  then have "trim (a @ G @ c)
               = rev (dropWhile isSpace (rev c @ rev G @ rev (dropWhile isSpace a)))"
    by (simp add: trim_def)
  also have "\<dots> = rev (dropWhile isSpace (rev c) @ rev G @ rev (dropWhile isSpace a))"
    by (simp only: dropWhile_before [of "rev G" isSpace, OF r])
  finally show ?thesis by simp
qed

lemma processLines_keeps:
  assumes "LF \<notin> set G" and "G \<noteq> []" and "\<not> isSpace (hd G)" and "\<not> isSpace (last G)"
  shows "\<exists>u v. processLines (X @ G @ Y) = u @ G @ v
           \<and> nonSpace u = nonSpace X \<and> nonSpace v = nonSpace Y"
proof (induction "length X" arbitrary: X rule: less_induct)
  case less
  show ?case
  proof (cases "LF \<in> set X")
    case True
    from split_list_first [OF True] obtain a b where X: "X = a @ LF # b" and a: "LF \<notin> set a"
      by blast
    then have "length b < length X" by simp
    from less [OF this] obtain u v where
      e: "processLines (b @ G @ Y) = u @ G @ v"
      and n: "nonSpace u = nonSpace b" "nonSpace v = nonSpace Y" by blast
    from processLines_first [OF a, of "b @ G @ Y"] e X
    have "processLines (X @ G @ Y) = (trim a @ u) @ G @ v" by simp
    moreover have "nonSpace (trim a @ u) = nonSpace X"
      using n X by (simp add: nonSpace_trim LF_space)
    ultimately show ?thesis using n(2) by blast
  next
    case False
    note X = this
    show ?thesis
    proof (cases "LF \<in> set Y")
      case True
      from split_list_first [OF True] obtain c d where Y: "Y = c @ LF # d" and c: "LF \<notin> set c"
        by blast
      from X assms(1) c have "LF \<notin> set (X @ G @ c)" by simp
      from processLines_first [OF this, of d] Y
      have "processLines (X @ G @ Y) = trim (X @ G @ c) @ processLines d" by simp
      also have "\<dots> = dropWhile isSpace X @ G @ (rev (dropWhile isSpace (rev c)) @ processLines d)"
        by (simp add: trim_around [OF assms(2,3,4)])
      finally have e: "processLines (X @ G @ Y)
        = dropWhile isSpace X @ G @ (rev (dropWhile isSpace (rev c)) @ processLines d)" .
      have "nonSpace (rev (dropWhile isSpace (rev c)) @ processLines d) = nonSpace Y"
        using Y by (simp add: nonSpace_rev nonSpace_dropWhile processLines_nonSpace LF_space)
      with e nonSpace_dropWhile [of X] show ?thesis by blast
    next
      case False
      with X assms(1) have "LF \<notin> set (X @ G @ Y)" by simp
      then have "split LF (X @ G @ Y) = [X @ G @ Y]" by (rule split_no_LF)
      moreover have "trim (X @ G @ Y) \<noteq> []" using assms(2) by (simp add: trim_around [OF assms(2,3,4)])
      ultimately have "processLines (X @ G @ Y) = trim (X @ G @ Y)"
        by (simp add: processLines_def)
      then have e: "processLines (X @ G @ Y)
                      = dropWhile isSpace X @ G @ rev (dropWhile isSpace (rev Y))"
        by (simp add: trim_around [OF assms(2,3,4)])
      have "nonSpace (rev (dropWhile isSpace (rev Y))) = nonSpace Y"
        by (simp add: nonSpace_rev nonSpace_dropWhile)
      with e nonSpace_dropWhile [of X] show ?thesis by blast
    qed
  qed
qed

text \<open>
  Claim C5 says that \<^verbatim>\<open>import { foo } from 'bar';\<close> is rewritten to
  \<^verbatim>\<open>import{foo}from'bar';\<close>.  On the input that consists of this fragment alone the
  result is a different string.
\<close>

theorem import_scenario_counterexample:
  "advancedCompress (js ''import { foo } from 'bar';'') \<noteq> js ''import{foo}from'bar';''"
  by code_simp

text \<open>
  On that input the result is \<^verbatim>\<open>import{foo}from 'bar';\<close>: the white space around both
  braces goes, which gives \<^verbatim>\<open>import{\<close> and \<^verbatim>\<open>}from\<close>, and the space between
  \<^verbatim>\<open>from\<close> and the quote stays, since the quote is not one of the punctuation characters
  of the fourth rule.
\<close>

lemma import_scenario_alone:
  "advancedCompress (js ''import { foo } from 'bar';'') = js ''import{foo}from 'bar';''"
  by code_simp

text \<open>
  Claim C5, amended.  For any input text that contains \<^verbatim>\<open>import { foo } from 'bar';\<close>,
  with any text \<open>pre\<close> before it and any text \<open>post\<close> behind it, \<open>advancedCompress\<close>
  rewrites that fragment to exactly \<^verbatim>\<open>import{foo}from 'bar';\<close>: the output is this string
  between a text \<open>u\<close> and a text \<open>v\<close>, where \<open>u\<close> has the code units of \<open>pre\<close> that are not
  white space and \<open>v\<close> those of \<open>post\<close>, so that the string stands where the fragment
  stood.
\<close>

theorem import_scenario_in_context:
  "\<exists>u v. advancedCompress (pre @ js ''import { foo } from 'bar';'' @ post)
            = u @ js ''import{foo}from 'bar';'' @ v
         \<and> nonSpace u = nonSpace pre \<and> nonSpace v = nonSpace post"
proof -
  from afterRules_import [of pre post] obtain X Y where
    e: "afterRules (pre @ js ''import { foo } from 'bar';'' @ post)
          = X @ js ''import{foo}from 'bar';'' @ Y"
    and n: "nonSpace X = nonSpace pre" "nonSpace Y = nonSpace post" by blast
  have G: "LF \<notin> set (js ''import{foo}from 'bar';'')" "js ''import{foo}from 'bar';'' \<noteq> []"
    "\<not> isSpace (hd (js ''import{foo}from 'bar';''))"
    "\<not> isSpace (last (js ''import{foo}from 'bar';''))"
    by (simp_all add: js_def LF_def isSpace_def isLineTerminator_def)
  have "advancedCompress (pre @ js ''import { foo } from 'bar';'' @ post)
          = processLines (X @ js ''import{foo}from 'bar';'' @ Y)"
    using e by (simp add: advancedCompress_def afterRules_def)
  with processLines_keeps [OF G, of X Y] n show ?thesis by auto
qed

end
